theory Spec2Isabelle
  imports Main "HOL-Library.Word"
begin

unbundle bit_operations_syntax

section \<open>Carla ring buffer: data model\<close>

text \<open>
  The buffer structs of \<^verbatim>\<open>CarlaRingBuffer.hpp\<close>. \<^verbatim>\<open>HeapBuffer\<close> and \<^verbatim>\<open>StackBuffer\<close> have the
  same members (the stack variant fixes \<^verbatim>\<open>size\<close> to 4096), so one record stands for the
  template parameter \<^verbatim>\<open>BufferStruct\<close>. \<^verbatim>\<open>uint32_t\<close> is a 32-bit word and \<^verbatim>\<open>std::size_t\<close> a
  64-bit word (LP64), both with the wrap-around arithmetic of C++ unsigned types. The member
  \<^verbatim>\<open>size\<close> is called \<open>size_f\<close> here, \<open>size\<close> being taken in HOL. The member \<open>buf\<close> is the
  content of the storage region it designates.
\<close>

type_synonym uint8_t = "8 word"
type_synonym uint32_t = "32 word"
type_synonym size_t = "64 word"

record BufferStruct =
  size_f :: uint32_t
  head :: size_t
  tail :: size_t
  wrtn :: size_t
  invalidateCommit :: bool
  buf :: "uint8_t list"

text \<open>
  A pointer is an option: \<open>None\<close> is \<^verbatim>\<open>nullptr\<close>. The engine's only member is
  \<^verbatim>\<open>BufferStruct* fBuffer\<close>; every operation takes it and returns it with the pointee updated.

  Memory accesses outside a region are undefined behaviour in C++. A function that touches
  memory therefore returns an option, where \<open>None\<close> is undefined behaviour and
  \<open>Some r\<close> is a normal return of \<open>r\<close>.
\<close>

definition memcpy :: "uint8_t list \<Rightarrow> nat \<Rightarrow> uint8_t list \<Rightarrow> nat \<Rightarrow> nat \<Rightarrow> uint8_t list option" where
  \<comment> \<open>\<^verbatim>\<open>std::memcpy(dst + doff, src + soff, n)\<close>: the new content of the region \<open>dst\<close>\<close>
  "memcpy dst doff src soff n =
     (if doff + n \<le> length dst \<and> soff + n \<le> length src
      then Some (take doff dst @ take n (drop soff src) @ drop (doff + n) dst)
      else None)"

definition carla_zeroBytes :: "uint8_t list option \<Rightarrow> nat \<Rightarrow> uint8_t list option option" where
  \<comment> \<open>Modelled from the spec: \<^verbatim>\<open>carla_zeroBytes\<close> (declared in a header that is not among the
      sources), "a zero-fill utility for clearing/erasing memory": the first \<open>n\<close> bytes of
      the region become 0; there is nothing to fill behind a null pointer.\<close>
  "carla_zeroBytes memory n =
     (case memory of
        None \<Rightarrow> Some None
      | Some m \<Rightarrow> if n \<le> length m then Some (Some (replicate n 0 @ drop n m)) else None)"

definition obj :: "uint8_t list option \<Rightarrow> uint8_t list" where
  \<comment> \<open>the bytes behind a pointer that is known not to be null\<close>
  "obj p = (case p of None \<Rightarrow> [] | Some m \<Rightarrow> m)"

section \<open>The engine\<close>

definition clear :: "BufferStruct option \<Rightarrow> BufferStruct option option" where
  "clear fBuffer =
     (case fBuffer of
        None \<Rightarrow> Some None
      | Some b \<Rightarrow>
          (case carla_zeroBytes (Some (buf b)) (unat (size_f b)) of
             None \<Rightarrow> None
           | Some m \<Rightarrow>
               Some (Some (b\<lparr>head := 0, tail := 0, wrtn := 0, invalidateCommit := False,
                             buf := obj m\<rparr>))))"

definition commitWrite :: "BufferStruct option \<Rightarrow> bool \<times> BufferStruct option" where
  "commitWrite fBuffer =
     (case fBuffer of
        None \<Rightarrow> (False, None)
      | Some b \<Rightarrow>
          if invalidateCommit b
          then (False, Some (b\<lparr>wrtn := head b, invalidateCommit := False\<rparr>))
          else if \<not> head b \<noteq> wrtn b then (False, Some b)
          else (True, Some (b\<lparr>head := wrtn b\<rparr>)))"

definition isDataAvailableForReading :: "BufferStruct option \<Rightarrow> bool" where
  "isDataAvailableForReading fBuffer =
     (case fBuffer of None \<Rightarrow> False | Some b \<Rightarrow> head b \<noteq> tail b)"

definition isEmpty :: "BufferStruct option \<Rightarrow> bool" where
  "isEmpty fBuffer =
     (case fBuffer of None \<Rightarrow> False | Some b \<Rightarrow> head b = tail b)"

definition tryRead ::
  "BufferStruct option \<Rightarrow> uint8_t list option \<Rightarrow> size_t \<Rightarrow>
     (bool \<times> uint8_t list option \<times> BufferStruct option) option" where
  \<comment> \<open>returns the success flag, the destination region and the engine's buffer\<close>
  "tryRead fBuffer dst sz =
     (case fBuffer of
        None \<Rightarrow> Some (False, dst, None)
      | Some b \<Rightarrow>
     (case dst of
        None \<Rightarrow> Some (False, None, Some b)
      | Some bytebuf \<Rightarrow>
          if \<not> sz > 0 then Some (False, dst, Some b)
          else if \<not> sz < ucast (size_f b) then Some (False, dst, Some b)
          else if head b = tail b then Some (False, dst, Some b)
          else
            let hd' = head b;
                tl' = tail b;
                wrap = (if hd' > tl' then 0 else ucast (size_f b))
            in if sz > wrap + hd' - tl' then Some (False, dst, Some b)
               else
                 let readto = tl' + sz
                 in if readto > ucast (size_f b)
                    then
                      let readto' = readto - ucast (size_f b);
                          firstpart = ucast (size_f b) - tl'
                      in (case memcpy bytebuf 0 (buf b) (unat tl') (unat firstpart) of
                            None \<Rightarrow> None
                          | Some d1 \<Rightarrow>
                         (case memcpy d1 (unat firstpart) (buf b) 0 (unat readto') of
                            None \<Rightarrow> None
                          | Some d2 \<Rightarrow> Some (True, Some d2, Some (b\<lparr>tail := readto'\<rparr>))))
                    else
                      (case memcpy bytebuf 0 (buf b) (unat tl') (unat sz) of
                         None \<Rightarrow> None
                       | Some d \<Rightarrow>
                           Some (True, Some d,
                                 Some (b\<lparr>tail := (if readto = ucast (size_f b) then 0 else readto)\<rparr>)))))"

definition tryWrite ::
  "BufferStruct option \<Rightarrow> uint8_t list option \<Rightarrow> size_t \<Rightarrow> (bool \<times> BufferStruct option) option" where
  "tryWrite fBuffer src sz =
     (case fBuffer of
        None \<Rightarrow> Some (False, None)
      | Some b \<Rightarrow>
     (case src of
        None \<Rightarrow> Some (False, Some b)
      | Some bytebuf \<Rightarrow>
          if \<not> sz > 0 then Some (False, Some b)
          else if \<not> sz < ucast (size_f b) then Some (False, Some b)
          else
            let tl' = tail b;
                wr = wrtn b;
                wrap = (if tl' > wr then 0 else ucast (size_f b))
            in if sz \<ge> wrap + tl' - wr then Some (False, Some (b\<lparr>invalidateCommit := True\<rparr>))
               else
                 let writeto = wr + sz
                 in if writeto > ucast (size_f b)
                    then
                      let writeto' = writeto - ucast (size_f b);
                          firstpart = ucast (size_f b) - wr
                      in (case memcpy (buf b) (unat wr) bytebuf 0 (unat firstpart) of
                            None \<Rightarrow> None
                          | Some m1 \<Rightarrow>
                         (case memcpy m1 0 bytebuf (unat firstpart) (unat writeto') of
                            None \<Rightarrow> None
                          | Some m2 \<Rightarrow> Some (True, Some (b\<lparr>buf := m2, wrtn := writeto'\<rparr>))))
                    else
                      (case memcpy (buf b) (unat wr) bytebuf 0 (unat sz) of
                         None \<Rightarrow> None
                       | Some m \<Rightarrow>
                           Some (True,
                                 Some (b\<lparr>buf := m,
                                         wrtn := (if writeto = ucast (size_f b) then 0 else writeto)\<rparr>)))))"

section \<open>Notions used in the statements\<close>

definition capacity :: "BufferStruct \<Rightarrow> nat" where
  "capacity b = unat (size_f b)"

definition storage_ok :: "BufferStruct \<Rightarrow> bool" where
  \<comment> \<open>the storage region designated by \<open>buf\<close> has \<open>size\<close> bytes, as both wrappers allocate it\<close>
  "storage_ok b \<longleftrightarrow> length (buf b) = unat (size_f b)"

definition cursors_in_range :: "BufferStruct \<Rightarrow> bool" where
  "cursors_in_range b \<longleftrightarrow>
     head b < ucast (size_f b) \<and> tail b < ucast (size_f b) \<and> wrtn b < ucast (size_f b)"

definition free_space :: "BufferStruct \<Rightarrow> size_t" where
  \<comment> \<open>the expression \<^verbatim>\<open>wrap + tail - wrtn\<close> of \<^verbatim>\<open>tryWrite\<close>\<close>
  "free_space b = (if tail b > wrtn b then 0 else ucast (size_f b)) + tail b - wrtn b"

definition available_data :: "BufferStruct \<Rightarrow> size_t" where
  \<comment> \<open>the expression \<^verbatim>\<open>wrap + head - tail\<close> of \<^verbatim>\<open>tryRead\<close>\<close>
  "available_data b = (if head b > tail b then 0 else ucast (size_f b)) + head b - tail b"

definition ring_pos :: "nat \<Rightarrow> nat \<Rightarrow> nat \<Rightarrow> nat" where
  \<comment> \<open>the index \<open>i\<close> bytes forward of index \<open>s\<close> in a region of \<open>c\<close> bytes, for \<open>i \<le> c\<close>\<close>
  "ring_pos c s i = (if s + i < c then s + i else s + i - c)"

definition keeps_in_range :: "BufferStruct option option \<Rightarrow> bool" where
  \<comment> \<open>of the buffer an operation leaves behind: if the operation returns, the engine is still
      bound and the cursors are in range\<close>
  "keeps_in_range r \<longleftrightarrow> (\<forall>fb'. r = Some fb' \<longrightarrow> (\<exists>b'. fb' = Some b' \<and> cursors_in_range b'))"

definition region_ok :: "uint8_t list option \<Rightarrow> size_t \<Rightarrow> bool" where
  \<comment> \<open>a caller's pointer is null or designates at least \<open>sz\<close> bytes\<close>
  "region_ok p sz \<longleftrightarrow> (case p of None \<Rightarrow> True | Some m \<Rightarrow> unat sz \<le> length m)"

inductive write_group :: "BufferStruct \<Rightarrow> BufferStruct \<Rightarrow> bool" where
  \<comment> \<open>\<open>write_group s t\<close>: \<open>t\<close> is reached from \<open>s\<close> by consecutive calls of \<open>tryWrite\<close> (which
      every typed writer calls), with no commit in between\<close>
  no_write: "write_group s s"
| one_more: "write_group s t \<Longrightarrow> tryWrite (Some t) src sz = Some (ok, Some t') \<Longrightarrow> write_group s t'"

definition readable :: "BufferStruct \<Rightarrow> nat \<Rightarrow> bool" where
  \<comment> \<open>index \<open>p\<close> of the storage lies from \<open>tail\<close> forward up to, not including, \<open>head\<close>: it
      holds a committed byte that has not been read\<close>
  "readable b p \<longleftrightarrow>
     p < capacity b \<and>
     (if unat (tail b) \<le> unat (head b) then unat (tail b) \<le> p \<and> p < unat (head b)
      else unat (tail b) \<le> p \<or> p < unat (head b))"

definition read_result ::
  "(bool \<times> uint8_t list option \<times> BufferStruct option) option \<Rightarrow> (bool \<times> uint8_t list option) option" where
  \<comment> \<open>what the caller of a read observes: the flag and the bytes in its region\<close>
  "read_result r = map_option (\<lambda>(ok, d, fb). (ok, d)) r"

definition pending_ok :: "BufferStruct \<Rightarrow> nat \<Rightarrow> bool" where
  \<comment> \<open>the index \<open>w\<close> lies from \<open>head\<close> forward up to, not including, \<open>tail\<close>, where bytes
      written and not yet committed end\<close>
  "pending_ok s w \<longleftrightarrow>
     (unat (tail s) \<le> unat (head s) \<and> (unat (head s) \<le> w \<or> w < unat (tail s)))
     \<or> (unat (head s) < unat (tail s) \<and> unat (head s) \<le> w \<and> w < unat (tail s))"

definition group_inv :: "BufferStruct \<Rightarrow> BufferStruct \<Rightarrow> bool" where
  \<comment> \<open>what a group of writes begun in \<open>s\<close> keeps true of the buffer \<open>t\<close> it has reached\<close>
  "group_inv s t \<longleftrightarrow>
     size_f t = size_f s \<and> head t = head s \<and> tail t = tail s
     \<and> length (buf t) = length (buf s)
     \<and> wrtn t < ucast (size_f s) \<and> pending_ok s (unat (wrtn t))
     \<and> (\<forall>p. readable s p \<longrightarrow> buf t ! p = buf s ! p)"

fun steps_forward :: "nat \<Rightarrow> nat \<Rightarrow> nat \<Rightarrow> nat \<Rightarrow> nat" where
  \<comment> \<open>counts single steps forward from \<open>p\<close>, wrapping from \<open>c - 1\<close> to 0, until \<open>t\<close> is
      reached; at most \<open>k\<close> steps\<close>
  "steps_forward 0 c p t = 0"
| "steps_forward (Suc k) c p t =
     (let q = (if Suc p = c then 0 else Suc p)
      in if q = t then 1 else Suc (steps_forward k c q t))"

definition circular_distance :: "nat \<Rightarrow> nat \<Rightarrow> nat \<Rightarrow> nat" where
  \<comment> \<open>the spec's "circular distance from \<open>a\<close> forward to \<open>b\<close>" in a ring of \<open>c\<close> indices: the
      number of steps forward that lead from \<open>a\<close> to \<open>b\<close>, a whole lap when \<open>a = b\<close>\<close>
  "circular_distance c a b = steps_forward c c a b"

section \<open>Typed readers and writers\<close>

text \<open>
  A scalar of \<open>8 * k\<close> bits is a word; its object representation, which \<^verbatim>\<open>tryRead\<close> and
  \<^verbatim>\<open>tryWrite\<close> copy, is its \<open>k\<close> bytes, least significant first (little-endian targets).
  \<^verbatim>\<open>sizeof(T)\<close> is \<open>LENGTH('a) div 8\<close>. A \<^verbatim>\<open>bool\<close> is the byte 1 or 0, a \<^verbatim>\<open>float\<close> or
  \<^verbatim>\<open>double\<close> is its 32-bit or 64-bit pattern (the engine only copies it; \<^verbatim>\<open>0.0\<close> is the pattern 0).
\<close>

fun to_bytes :: "nat \<Rightarrow> 'a::len word \<Rightarrow> uint8_t list" where
  "to_bytes 0 w = []"
| "to_bytes (Suc k) w = ucast w # to_bytes k (drop_bit 8 w)"

definition from_bytes :: "uint8_t list \<Rightarrow> 'a::len word" where
  "from_bytes bs = foldr (\<lambda>b acc. ucast b OR push_bit 8 acc) bs 0"

definition sizeof :: "'a::len word \<Rightarrow> nat" where
  "sizeof w = LENGTH('a) div 8"

definition tryRead_as ::
  "BufferStruct option \<Rightarrow> 'a::len word \<Rightarrow> (bool \<times> 'a word \<times> BufferStruct option) option" where
  \<comment> \<open>\<^verbatim>\<open>T x = init; tryRead(&x, sizeof(T))\<close>: the flag, the value of \<open>x\<close> afterwards, the buffer\<close>
  "tryRead_as fBuffer init =
     (case tryRead fBuffer (Some (to_bytes (sizeof init) init)) (of_nat (sizeof init)) of
        None \<Rightarrow> None
      | Some (ok, d, fb) \<Rightarrow> Some (ok, from_bytes (obj d), fb))"

definition tryWrite_as ::
  "BufferStruct option \<Rightarrow> 'a::len word \<Rightarrow> (bool \<times> BufferStruct option) option" where
  \<comment> \<open>\<^verbatim>\<open>tryWrite(&value, sizeof(T))\<close>\<close>
  "tryWrite_as fBuffer v = tryWrite fBuffer (Some (to_bytes (sizeof v) v)) (of_nat (sizeof v))"

text \<open>
  The limits of \<^verbatim>\<open><cstdint>\<close>, where \<^verbatim>\<open>int_leastN_t\<close> is \<^verbatim>\<open>intN_t\<close>.
\<close>

definition INT_LEAST8_MAX :: int where "INT_LEAST8_MAX = 127"
definition INT_LEAST16_MAX :: int where "INT_LEAST16_MAX = 32767"
definition INT_LEAST32_MAX :: int where "INT_LEAST32_MAX = 2147483647"
definition INT_LEAST64_MAX :: int where "INT_LEAST64_MAX = 9223372036854775807"

definition readBool :: "BufferStruct option \<Rightarrow> (bool \<times> BufferStruct option) option" where
  "readBool fBuffer =
     (case tryRead_as fBuffer (0 :: 8 word) of
        None \<Rightarrow> None
      | Some (ok, b, fb) \<Rightarrow> Some (if ok then b \<noteq> 0 else False, fb))"

definition readByte :: "BufferStruct option \<Rightarrow> (8 word \<times> BufferStruct option) option" where
  "readByte fBuffer =
     (case tryRead_as fBuffer (0 :: 8 word) of
        None \<Rightarrow> None
      | Some (ok, b, fb) \<Rightarrow> Some (if ok then b else 0, fb))"

definition readUByte :: "BufferStruct option \<Rightarrow> (8 word \<times> BufferStruct option) option" where
  "readUByte fBuffer =
     (case tryRead_as fBuffer (- 1 :: 8 word) of
        None \<Rightarrow> None
      | Some (ok, ub, fb) \<Rightarrow>
          Some (if ok \<and> sint ub \<ge> 0 \<and> sint ub \<le> INT_LEAST8_MAX then ucast ub else 0, fb))"

definition readShort :: "BufferStruct option \<Rightarrow> (16 word \<times> BufferStruct option) option" where
  "readShort fBuffer =
     (case tryRead_as fBuffer (0 :: 16 word) of
        None \<Rightarrow> None
      | Some (ok, s, fb) \<Rightarrow> Some (if ok then s else 0, fb))"

definition readUShort :: "BufferStruct option \<Rightarrow> (16 word \<times> BufferStruct option) option" where
  "readUShort fBuffer =
     (case tryRead_as fBuffer (- 1 :: 16 word) of
        None \<Rightarrow> None
      | Some (ok, us, fb) \<Rightarrow>
          Some (if ok \<and> sint us \<ge> 0 \<and> sint us \<le> INT_LEAST16_MAX then ucast us else 0, fb))"

definition readInt :: "BufferStruct option \<Rightarrow> (32 word \<times> BufferStruct option) option" where
  "readInt fBuffer =
     (case tryRead_as fBuffer (0 :: 32 word) of
        None \<Rightarrow> None
      | Some (ok, i, fb) \<Rightarrow> Some (if ok then i else 0, fb))"

definition readUInt :: "BufferStruct option \<Rightarrow> (32 word \<times> BufferStruct option) option" where
  "readUInt fBuffer =
     (case tryRead_as fBuffer (- 1 :: 32 word) of
        None \<Rightarrow> None
      | Some (ok, ui, fb) \<Rightarrow>
          Some (if ok \<and> sint ui \<ge> 0 \<and> sint ui \<le> INT_LEAST32_MAX then ucast ui else 0, fb))"

definition readLong :: "BufferStruct option \<Rightarrow> (64 word \<times> BufferStruct option) option" where
  "readLong fBuffer =
     (case tryRead_as fBuffer (0 :: 64 word) of
        None \<Rightarrow> None
      | Some (ok, l, fb) \<Rightarrow> Some (if ok then l else 0, fb))"

definition readULong :: "BufferStruct option \<Rightarrow> (64 word \<times> BufferStruct option) option" where
  "readULong fBuffer =
     (case tryRead_as fBuffer (- 1 :: 64 word) of
        None \<Rightarrow> None
      | Some (ok, ul, fb) \<Rightarrow>
          Some (if ok \<and> sint ul \<ge> 0 \<and> sint ul \<le> INT_LEAST64_MAX then ucast ul else 0, fb))"

definition readFloat :: "BufferStruct option \<Rightarrow> (32 word \<times> BufferStruct option) option" where
  "readFloat fBuffer =
     (case tryRead_as fBuffer (0 :: 32 word) of
        None \<Rightarrow> None
      | Some (ok, f, fb) \<Rightarrow> Some (if ok then f else 0, fb))"

definition readDouble :: "BufferStruct option \<Rightarrow> (64 word \<times> BufferStruct option) option" where
  "readDouble fBuffer =
     (case tryRead_as fBuffer (0 :: 64 word) of
        None \<Rightarrow> None
      | Some (ok, d, fb) \<Rightarrow> Some (if ok then d else 0, fb))"

definition readCustomData ::
  "BufferStruct option \<Rightarrow> uint8_t list option \<Rightarrow> size_t \<Rightarrow>
     (uint8_t list option \<times> BufferStruct option) option" where
  "readCustomData fBuffer data sz =
     (case tryRead fBuffer data sz of
        None \<Rightarrow> None
      | Some (ok, d, fb) \<Rightarrow>
          if \<not> ok
          then (case carla_zeroBytes d (unat sz) of None \<Rightarrow> None | Some z \<Rightarrow> Some (z, fb))
          else Some (d, fb))"

definition readCustomType ::
  "BufferStruct option \<Rightarrow> uint8_t list \<Rightarrow> (uint8_t list \<times> BufferStruct option) option" where
  \<comment> \<open>\<open>type\<close> is a reference to an object of \<^verbatim>\<open>sizeof(T) = length type\<close> bytes;
      \<^verbatim>\<open>carla_zeroStruct\<close> (not among the sources) zero-fills the object\<close>
  "readCustomType fBuffer type =
     (case tryRead fBuffer (Some type) (of_nat (length type)) of
        None \<Rightarrow> None
      | Some (ok, d, fb) \<Rightarrow>
          if \<not> ok
          then (case carla_zeroBytes d (length type) of None \<Rightarrow> None | Some z \<Rightarrow> Some (obj z, fb))
          else Some (obj d, fb))"

definition writeBool :: "BufferStruct option \<Rightarrow> bool \<Rightarrow> (bool \<times> BufferStruct option) option" where
  "writeBool fBuffer v = tryWrite_as fBuffer (if v then 1 else 0 :: 8 word)"

definition writeByte :: "BufferStruct option \<Rightarrow> 8 word \<Rightarrow> (bool \<times> BufferStruct option) option" where
  "writeByte fBuffer v = tryWrite_as fBuffer v"

definition writeShort :: "BufferStruct option \<Rightarrow> 16 word \<Rightarrow> (bool \<times> BufferStruct option) option" where
  "writeShort fBuffer v = tryWrite_as fBuffer v"

definition writeInt :: "BufferStruct option \<Rightarrow> 32 word \<Rightarrow> (bool \<times> BufferStruct option) option" where
  "writeInt fBuffer v = tryWrite_as fBuffer v"

definition writeLong :: "BufferStruct option \<Rightarrow> 64 word \<Rightarrow> (bool \<times> BufferStruct option) option" where
  "writeLong fBuffer v = tryWrite_as fBuffer v"

definition writeFloat :: "BufferStruct option \<Rightarrow> 32 word \<Rightarrow> (bool \<times> BufferStruct option) option" where
  "writeFloat fBuffer v = tryWrite_as fBuffer v"

definition writeDouble :: "BufferStruct option \<Rightarrow> 64 word \<Rightarrow> (bool \<times> BufferStruct option) option" where
  "writeDouble fBuffer v = tryWrite_as fBuffer v"

definition writeCustomData ::
  "BufferStruct option \<Rightarrow> uint8_t list option \<Rightarrow> size_t \<Rightarrow> (bool \<times> BufferStruct option) option" where
  "writeCustomData fBuffer v sz = tryWrite fBuffer v sz"

definition writeCustomType ::
  "BufferStruct option \<Rightarrow> uint8_t list \<Rightarrow> (bool \<times> BufferStruct option) option" where
  "writeCustomType fBuffer v = tryWrite fBuffer (Some v) (of_nat (length v))"

section \<open>The heap-backed wrapper\<close>

text \<open>
  \<^verbatim>\<open>CarlaHeapRingBuffer\<close> holds the engine's pointer \<open>fBuffer\<close> and its own \<open>fHeapBuffer\<close>.
  Inside it the pointer is either null or the address of that member, and the engine's
  operations act on the member through it.
\<close>

datatype HeapBuffer_ptr = nullptr | addr_fHeapBuffer

record CarlaHeapRingBuffer =
  fBuffer :: HeapBuffer_ptr
  fHeapBuffer :: BufferStruct

datatype fault = undefined_behaviour | bad_alloc

definition pointee :: "CarlaHeapRingBuffer \<Rightarrow> BufferStruct option" where
  "pointee h = (case fBuffer h of nullptr \<Rightarrow> None | addr_fHeapBuffer \<Rightarrow> Some (fHeapBuffer h))"

definition clear_heap :: "CarlaHeapRingBuffer \<Rightarrow> CarlaHeapRingBuffer option" where
  \<comment> \<open>\<open>clear()\<close> of the base class, acting through \<open>fBuffer\<close>\<close>
  "clear_heap h =
     (case clear (pointee h) of
        None \<Rightarrow> None
      | Some None \<Rightarrow> Some h
      | Some (Some b) \<Rightarrow> Some (h\<lparr>fHeapBuffer := b\<rparr>))"

definition setRingBuffer ::
  "HeapBuffer_ptr \<Rightarrow> bool \<Rightarrow> CarlaHeapRingBuffer \<Rightarrow> CarlaHeapRingBuffer option" where
  "setRingBuffer ringBuf reset h =
     (if \<not> ringBuf \<noteq> fBuffer h then Some h
      else
        let h' = h\<lparr>fBuffer := ringBuf\<rparr>
        in if reset \<and> ringBuf \<noteq> nullptr then clear_heap h' else Some h')"

fun pow2_from :: "nat \<Rightarrow> nat \<Rightarrow> nat \<Rightarrow> nat" where
  \<comment> \<open>Modelled from the spec: the search behind \<^verbatim>\<open>carla_nextPowerOf2\<close> below; doubles \<open>p\<close>,
      at most \<open>k\<close> times, until it is not below \<open>n\<close>\<close>
  "pow2_from 0 p n = p"
| "pow2_from (Suc k) p n = (if n \<le> p then p else pow2_from k (2 * p) n)"

definition carla_nextPowerOf2 :: "uint32_t \<Rightarrow> uint32_t" where
  \<comment> \<open>Modelled from the spec: \<^verbatim>\<open>carla_nextPowerOf2\<close> of \<^verbatim>\<open>CarlaMathUtils.hpp\<close>, which is not
      among the sources: "rounds size up to the next power of two" (10 gives 16), the
      result being a \<^verbatim>\<open>uint32_t\<close>.\<close>
  "carla_nextPowerOf2 sz = of_nat (pow2_from 32 1 (unat sz))"

definition createBuffer ::
  "uint8_t list option \<Rightarrow> uint32_t \<Rightarrow> CarlaHeapRingBuffer \<Rightarrow> fault + CarlaHeapRingBuffer" where
  \<comment> \<open>\<open>new_array\<close> is what \<^verbatim>\<open>new uint8_t[fHeapBuffer.size]\<close> yields: \<open>None\<close> when it throws,
      otherwise the (indeterminate) content of the new array\<close>
  "createBuffer new_array sz h =
     (if \<not> sz > 0 then Inr h
      else
        let h1 = h\<lparr>fHeapBuffer := (fHeapBuffer h)\<lparr>size_f := carla_nextPowerOf2 sz\<rparr>\<rparr>
        in (case new_array of
              None \<Rightarrow> Inl bad_alloc
            | Some a \<Rightarrow>
                (case setRingBuffer addr_fHeapBuffer True (h1\<lparr>fHeapBuffer := (fHeapBuffer h1)\<lparr>buf := a\<rparr>\<rparr>) of
                   None \<Rightarrow> Inl undefined_behaviour
                 | Some h2 \<Rightarrow> Inr h2)))"

section \<open>Basic facts\<close>

lemma unat_size_t_of_uint32 [simp]: "unat (ucast (x :: 32 word) :: 64 word) = unat x"
  by (simp add: unsigned_ucast_eq take_bit_nat_eq_self_iff) (rule less_trans [OF unsigned_less], simp)

lemma unat_uint32_bound: "unat (x :: 32 word) < 4294967296"
  using unsigned_less [of x] by simp

lemma unat_size_t_bound: "unat (x :: 64 word) < 18446744073709551616"
  using unsigned_less [of x] by simp

lemma memcpy_Some:
  "memcpy dst doff src soff n = Some m \<longleftrightarrow>
     doff + n \<le> length dst \<and> soff + n \<le> length src \<and>
     m = take doff dst @ take n (drop soff src) @ drop (doff + n) dst"
  by (auto simp: memcpy_def)

lemma memcpy_length: "memcpy dst doff src soff n = Some m \<Longrightarrow> length m = length dst"
  by (auto simp: memcpy_Some)

lemma memcpy_nth:
  assumes "memcpy dst doff src soff n = Some m" and "p < length dst"
  shows "m ! p = (if doff \<le> p \<and> p < doff + n then src ! (soff + (p - doff)) else dst ! p)"
proof -
  define A where "A = take doff dst"
  define B where "B = take n (drop soff src)"
  define D where "D = drop (doff + n) dst"
  from assms(1) have b: "doff + n \<le> length dst" "soff + n \<le> length src"
    and m: "m = A @ B @ D"
    by (simp_all add: memcpy_Some A_def B_def D_def)
  have lA: "length A = doff" and lB: "length B = n"
    using b by (simp_all add: A_def B_def)
  consider "p < doff" | "doff \<le> p" "p < doff + n" | "doff + n \<le> p" by linarith
  then show ?thesis
  proof cases
    case 1
    then have "m ! p = A ! p" by (simp add: m nth_append lA)
    also have "\<dots> = dst ! p" using 1 by (simp add: A_def)
    finally show ?thesis using 1 by simp
  next
    case 2
    then have q: "p - doff < n" by linarith
    have "m ! p = (B @ D) ! (p - doff)" using 2 by (simp add: m nth_append lA)
    also have "\<dots> = B ! (p - doff)" using q by (simp add: nth_append lB)
    also have "\<dots> = src ! (soff + (p - doff))" using q b by (simp add: B_def)
    finally show ?thesis using 2 by simp
  next
    case 3
    then have q: "\<not> p - doff < n" "\<not> p < doff" by linarith+
    have "m ! p = (B @ D) ! (p - doff)" using q by (simp add: m nth_append lA)
    also have "\<dots> = D ! (p - doff - n)" using q by (simp add: nth_append lB)
    also have "\<dots> = dst ! p" using 3 assms(2) by (simp add: D_def)
    finally show ?thesis using 3 by simp
  qed
qed

lemma tryWrite_unfold:
  "tryWrite (Some b) (Some src) sz =
     (if \<not> 0 < sz \<or> \<not> sz < ucast (size_f b) then Some (False, Some b)
      else if sz \<ge> free_space b then Some (False, Some (b\<lparr>invalidateCommit := True\<rparr>))
      else if wrtn b + sz > ucast (size_f b)
      then (case memcpy (buf b) (unat (wrtn b)) src 0 (unat (ucast (size_f b) - wrtn b)) of
              None \<Rightarrow> None
            | Some m1 \<Rightarrow>
                (case memcpy m1 0 src (unat (ucast (size_f b) - wrtn b)) (unat (wrtn b + sz - ucast (size_f b))) of
                   None \<Rightarrow> None
                 | Some m2 \<Rightarrow> Some (True, Some (b\<lparr>buf := m2, wrtn := wrtn b + sz - ucast (size_f b)\<rparr>))))
      else (case memcpy (buf b) (unat (wrtn b)) src 0 (unat sz) of
              None \<Rightarrow> None
            | Some m \<Rightarrow>
                Some (True, Some (b\<lparr>buf := m,
                       wrtn := (if wrtn b + sz = ucast (size_f b) then 0 else wrtn b + sz)\<rparr>))))"
  by (cases "tail b > wrtn b") (simp_all add: tryWrite_def free_space_def Let_def)


lemma tryRead_unfold:
  "tryRead (Some b) (Some dst) sz =
     (if \<not> 0 < sz \<or> \<not> sz < ucast (size_f b) \<or> head b = tail b \<or> sz > available_data b
      then Some (False, Some dst, Some b)
      else if tail b + sz > ucast (size_f b)
      then (case memcpy dst 0 (buf b) (unat (tail b)) (unat (ucast (size_f b) - tail b)) of
              None \<Rightarrow> None
            | Some d1 \<Rightarrow>
                (case memcpy d1 (unat (ucast (size_f b) - tail b)) (buf b) 0 (unat (tail b + sz - ucast (size_f b))) of
                   None \<Rightarrow> None
                 | Some d2 \<Rightarrow> Some (True, Some d2, Some (b\<lparr>tail := tail b + sz - ucast (size_f b)\<rparr>))))
      else (case memcpy dst 0 (buf b) (unat (tail b)) (unat sz) of
              None \<Rightarrow> None
            | Some d \<Rightarrow>
                Some (True, Some d,
                      Some (b\<lparr>tail := (if tail b + sz = ucast (size_f b) then 0 else tail b + sz)\<rparr>))))"
  by (cases "head b > tail b") (simp_all add: tryRead_def available_data_def Let_def)

lemma crossing_nat:
  fixes w sz :: "64 word" and c :: "32 word"
  assumes "sz < ucast c" and "w + sz > ucast c"
    and "unat w + unat (ucast c - w) \<le> unat c"
  shows "unat w \<le> unat c" "unat (ucast c - w) = unat c - unat w"
    "unat (w + sz - ucast c) = unat w + unat sz - unat c" "unat c < unat w + unat sz"
proof -
  have c: "unat c < 4294967296" by (rule unat_uint32_bound)
  show w: "unat w \<le> unat c"
    using assms(3) unat_size_t_bound [of w] by (simp add: unat_sub_if' split: if_splits)
  then show "unat (ucast c - w) = unat c - unat w"
    by (simp add: unat_sub_if')
  have n: "unat sz < unat c" using assms(1) by (simp add: word_less_nat_alt)
  have s: "unat (w + sz) = unat w + unat sz"
    using w n c by (simp add: unat_add_lem [symmetric])
  show gt: "unat c < unat w + unat sz"
    using assms(2) s by (simp add: word_less_nat_alt)
  show "unat (w + sz - ucast c) = unat w + unat sz - unat c"
    using gt s by (simp add: unat_sub_if')
qed

lemma straight_nat:
  fixes w sz :: "64 word" and c :: "32 word"
  assumes "sz < ucast c" and "\<not> w + sz > ucast c"
    and "unat w + unat sz \<le> unat c"
  shows "unat (w + sz) = unat w + unat sz"
    "unat (if w + sz = ucast c then 0 else w + sz) = (if unat w + unat sz = unat c then 0 else unat w + unat sz)"
proof -
  have c: "unat c < 4294967296" by (rule unat_uint32_bound)
  show s: "unat (w + sz) = unat w + unat sz"
    using assms(3) c by (simp add: unat_add_lem [symmetric])
  then show "unat (if w + sz = ucast c then 0 else w + sz) = (if unat w + unat sz = unat c then 0 else unat w + unat sz)"
    by (simp add: word_unat_eq_iff)
qed


lemma ring_pos_fwd: "W + i < C \<Longrightarrow> ring_pos C W i = W + i"
  by (simp add: ring_pos_def)

lemma ring_pos_wrap: "\<not> W + i < C \<Longrightarrow> ring_pos C W i = W + i - C"
  by (simp add: ring_pos_def)

lemma ring_pos_back1: "W \<le> C \<Longrightarrow> p < W \<Longrightarrow> ring_pos C W (p + C - W) = p"
  unfolding ring_pos_def by (split if_split) (intro conjI impI; linarith)

lemma ring_pos_back2: "W \<le> p \<Longrightarrow> p < C \<Longrightarrow> ring_pos C W (p - W) = p"
  unfolding ring_pos_def by (split if_split) (intro conjI impI; linarith)


lemma ring_store_crossing:
  fixes C W n :: nat
  assumes m1: "memcpy bf W src 0 (C - W) = Some m1"
    and m2: "memcpy m1 0 src (C - W) (W + n - C) = Some m2"
    and l: "length bf = C" and W: "W \<le> C" and n: "n < C" and x: "C < W + n"
  shows "length m2 = C"
    and "\<forall>i<n. m2 ! ring_pos C W i = src ! i"
    and "\<forall>p<C. (\<forall>i<n. p \<noteq> ring_pos C W i) \<longrightarrow> m2 ! p = bf ! p"
proof -
  have l1: "length m1 = C" using memcpy_length [OF m1] l by simp
  show l2: "length m2 = C" using memcpy_length [OF m2] l1 by simp
  have nth2a: "m2 ! p = src ! (C - W + p)" if "p < W + n - C" for p
  proof -
    have "p < length m1" using that l1 n W by linarith
    from memcpy_nth [OF m2 this] that show ?thesis by simp
  qed
  have nth2b: "m2 ! p = m1 ! p" if "p < C" "\<not> p < W + n - C" for p
  proof -
    have "p < length m1" using that l1 by simp
    from memcpy_nth [OF m2 this] that show ?thesis by simp
  qed
  have nth1a: "m1 ! p = src ! (p - W)" if "p < C" "W \<le> p" for p
  proof -
    have "p < length bf" using that l by simp
    moreover have "p < W + (C - W)" using that W by linarith
    ultimately show ?thesis using memcpy_nth [OF m1, of p] that by simp
  qed
  have nth1b: "m1 ! p = bf ! p" if "p < C" "\<not> W \<le> p" for p
  proof -
    have "p < length bf" using that l by simp
    from memcpy_nth [OF m1 this] that show ?thesis by simp
  qed
  show "\<forall>i<n. m2 ! ring_pos C W i = src ! i"
  proof (intro allI impI)
    fix i assume i: "i < n"
    show "m2 ! ring_pos C W i = src ! i"
    proof (cases "W + i < C")
      case True
      have r: "ring_pos C W i = W + i" using True by (rule ring_pos_fwd)
      have "\<not> W + i < W + n - C" using n by linarith
      with True have "m2 ! (W + i) = m1 ! (W + i)" by (rule nth2b)
      also have "\<dots> = src ! (W + i - W)" by (rule nth1a [OF True]) simp
      also have "W + i - W = i" by simp
      finally show ?thesis unfolding r .
    next
      case False
      have r: "ring_pos C W i = W + i - C" using False by (rule ring_pos_wrap)
      have lt: "W + i - C < W + n - C" using False i by linarith
      have e: "C - W + (W + i - C) = i" using False W by linarith
      have "m2 ! (W + i - C) = src ! (C - W + (W + i - C))" using lt by (rule nth2a)
      then show ?thesis unfolding r e .
    qed
  qed
  show "\<forall>p<C. (\<forall>i<n. p \<noteq> ring_pos C W i) \<longrightarrow> m2 ! p = bf ! p"
  proof (intro allI impI)
    fix p assume p: "p < C" and out: "\<forall>i<n. p \<noteq> ring_pos C W i"
    have a: "\<not> p < W + n - C"
    proof
      assume q: "p < W + n - C"
      then have lt: "p + C - W < n" using x W by linarith
      have "p < W" using q n by linarith
      then have "ring_pos C W (p + C - W) = p" using W by (intro ring_pos_back1)
      then show False using out [rule_format, OF lt] by simp
    qed
    have b: "\<not> W \<le> p"
    proof
      assume q: "W \<le> p"
      then have lt: "p - W < n" using x p by linarith
      have "ring_pos C W (p - W) = p" using q p by (rule ring_pos_back2)
      then show False using out [rule_format, OF lt] by simp
    qed
    have "m2 ! p = m1 ! p" using p a by (rule nth2b)
    also have "\<dots> = bf ! p" using p b by (rule nth1b)
    finally show "m2 ! p = bf ! p" .
  qed
qed


lemma ring_store_straight:
  fixes C W n :: nat
  assumes m: "memcpy bf W src 0 n = Some m"
    and l: "length bf = C"
  shows "length m = C"
    and "\<forall>i<n. m ! ring_pos C W i = src ! i"
    and "\<forall>p<C. (\<forall>i<n. p \<noteq> ring_pos C W i) \<longrightarrow> m ! p = bf ! p"
proof -
  from m have le: "W + n \<le> C" using l by (simp add: memcpy_Some)
  show "length m = C" using memcpy_length [OF m] l by simp
  have ntha: "m ! p = src ! (p - W)" if "W \<le> p" "p < W + n" for p
  proof -
    have "p < length bf" using that le l by linarith
    from memcpy_nth [OF m this] that show ?thesis by simp
  qed
  have nthb: "m ! p = bf ! p" if "p < C" "\<not> (W \<le> p \<and> p < W + n)" for p
  proof -
    have "p < length bf" using that l by simp
    from memcpy_nth [OF m this] that show ?thesis by simp
  qed
  show "\<forall>i<n. m ! ring_pos C W i = src ! i"
  proof (intro allI impI)
    fix i assume i: "i < n"
    then have lt: "W + i < C" using le by linarith
    have r: "ring_pos C W i = W + i" using lt by (rule ring_pos_fwd)
    have "m ! (W + i) = src ! (W + i - W)" using i by (intro ntha) simp_all
    also have "W + i - W = i" by simp
    finally show "m ! ring_pos C W i = src ! i" unfolding r .
  qed
  show "\<forall>p<C. (\<forall>i<n. p \<noteq> ring_pos C W i) \<longrightarrow> m ! p = bf ! p"
  proof (intro allI impI)
    fix p assume p: "p < C" and out: "\<forall>i<n. p \<noteq> ring_pos C W i"
    have "\<not> (W \<le> p \<and> p < W + n)"
    proof
      assume q: "W \<le> p \<and> p < W + n"
      then have lt: "p - W < n" by linarith
      have "ring_pos C W (p - W) = p" using q p by (intro ring_pos_back2) simp_all
      then show False using out [rule_format, OF lt] by simp
    qed
    with p show "m ! p = bf ! p" by (rule nthb)
  qed
qed


lemma ring_load_crossing:
  fixes C T n :: nat
  assumes d1: "memcpy dst 0 bf T (C - T) = Some d1"
    and d2: "memcpy d1 (C - T) bf 0 (T + n - C) = Some d2"
    and T: "T \<le> C" and x: "C < T + n"
  shows "length d2 = length dst"
    and "n \<le> length dst"
    and "\<forall>i<n. d2 ! i = bf ! ring_pos C T i"
    and "\<forall>i<length dst. n \<le> i \<longrightarrow> d2 ! i = dst ! i"
proof -
  have l1: "length d1 = length dst" using memcpy_length [OF d1] .
  show l2: "length d2 = length dst" using memcpy_length [OF d2] l1 by simp
  from d2 have "C - T + (T + n - C) \<le> length d1" by (simp add: memcpy_Some)
  then show nl: "n \<le> length dst" using l1 T x by linarith
  have nth1a: "d1 ! i = bf ! (T + i)" if "i < C - T" for i
  proof -
    have "i < length dst" using that x nl by linarith
    from memcpy_nth [OF d1 this] that show ?thesis by simp
  qed
  have nth1b: "d1 ! i = dst ! i" if "i < length dst" "\<not> i < C - T" for i
    using memcpy_nth [OF d1 that(1)] that(2) by simp
  have nth2a: "d2 ! i = bf ! (i - (C - T))" if "C - T \<le> i" "i < n" for i
  proof -
    have "i < length d1" using that nl l1 by linarith
    moreover have "i < C - T + (T + n - C)" using that T x by linarith
    ultimately show ?thesis using memcpy_nth [OF d2, of i] that by simp
  qed
  have nth2b: "d2 ! i = d1 ! i" if "i < length dst" "i < C - T \<or> n \<le> i" for i
  proof -
    have a: "i < length d1" using that l1 by simp
    have c: "\<not> (C - T \<le> i \<and> i < C - T + (T + n - C))" using that T x by linarith
    from memcpy_nth [OF d2 a] show ?thesis by (simp only: c if_False)
  qed
  show "\<forall>i<n. d2 ! i = bf ! ring_pos C T i"
  proof (intro allI impI)
    fix i assume i: "i < n"
    show "d2 ! i = bf ! ring_pos C T i"
    proof (cases "T + i < C")
      case True
      have r: "ring_pos C T i = T + i" using True by (rule ring_pos_fwd)
      have lt: "i < C - T" using True by linarith
      have "i < length dst" using i nl by linarith
      then have "d2 ! i = d1 ! i" using lt by (intro nth2b) simp_all
      also have "\<dots> = bf ! (T + i)" using lt by (rule nth1a)
      finally show ?thesis unfolding r .
    next
      case False
      have r: "ring_pos C T i = T + i - C" using False by (rule ring_pos_wrap)
      have ge: "C - T \<le> i" using False by linarith
      have e: "i - (C - T) = T + i - C" using False T by linarith
      have "d2 ! i = bf ! (i - (C - T))" using ge i by (rule nth2a)
      then show ?thesis unfolding r e .
    qed
  qed
  show "\<forall>i<length dst. n \<le> i \<longrightarrow> d2 ! i = dst ! i"
  proof (intro allI impI)
    fix i assume i: "i < length dst" "n \<le> i"
    have "d2 ! i = d1 ! i" using i by (intro nth2b) simp_all
    also have "\<dots> = dst ! i" using i x by (intro nth1b) linarith+
    finally show "d2 ! i = dst ! i" .
  qed
qed

lemma ring_load_straight:
  fixes C T n :: nat
  assumes d: "memcpy dst 0 bf T n = Some d" and l: "length bf = C"
  shows "length d = length dst"
    and "n \<le> length dst"
    and "\<forall>i<n. d ! i = bf ! ring_pos C T i"
    and "\<forall>i<length dst. n \<le> i \<longrightarrow> d ! i = dst ! i"
proof -
  show "length d = length dst" using memcpy_length [OF d] .
  from d show nl: "n \<le> length dst" by (simp add: memcpy_Some)
  from d have le: "T + n \<le> C" using l by (simp add: memcpy_Some)
  show "\<forall>i<n. d ! i = bf ! ring_pos C T i"
  proof (intro allI impI)
    fix i assume i: "i < n"
    then have lt: "T + i < C" using le by linarith
    have r: "ring_pos C T i = T + i" using lt by (rule ring_pos_fwd)
    have "i < length dst" using i nl by linarith
    from memcpy_nth [OF d this] i show "d ! i = bf ! ring_pos C T i" unfolding r by simp
  qed
  show "\<forall>i<length dst. n \<le> i \<longrightarrow> d ! i = dst ! i"
  proof (intro allI impI)
    fix i assume i: "i < length dst" "n \<le> i"
    from memcpy_nth [OF d i(1)] i(2) show "d ! i = dst ! i" by simp
  qed
qed


lemma tryWrite_True_guards:
  assumes "tryWrite (Some b) (Some src) sz = Some (True, fb')"
  shows "0 < sz" "sz < ucast (size_f b)" "\<not> free_space b \<le> sz"
  using assms by (simp_all add: tryWrite_unfold split: if_splits)

lemma tryWrite_True_D:
  assumes ok: "storage_ok b" and w: "tryWrite (Some b) (Some src) sz = Some (True, fb')"
  shows "\<exists>m w'. fb' = Some (b\<lparr>buf := m, wrtn := w'\<rparr>)
           \<and> unat w' = ring_pos (capacity b) (unat (wrtn b)) (unat sz)
           \<and> length m = capacity b
           \<and> (\<forall>i<unat sz. m ! ring_pos (capacity b) (unat (wrtn b)) i = src ! i)
           \<and> (\<forall>p<capacity b. (\<forall>i<unat sz. p \<noteq> ring_pos (capacity b) (unat (wrtn b)) i)
                  \<longrightarrow> m ! p = buf b ! p)"
    and "0 < unat sz" and "unat sz < capacity b" and "unat (wrtn b) \<le> capacity b"
    and "unat sz \<le> length src"
proof -
  define C where "C = capacity b"
  define W where "W = unat (wrtn b)"
  define n where "n = unat sz"
  note g = tryWrite_True_guards [OF w]
  have l: "length (buf b) = C" using ok by (simp add: storage_ok_def C_def capacity_def)
  show n0: "0 < unat sz" using g(1) by (simp add: word_less_nat_alt)
  show nC: "unat sz < capacity b" using g(2) by (simp add: word_less_nat_alt capacity_def)
  have main: "(\<exists>m w'. fb' = Some (b\<lparr>buf := m, wrtn := w'\<rparr>)
           \<and> unat w' = ring_pos C W n
           \<and> length m = C
           \<and> (\<forall>i<n. m ! ring_pos C W i = src ! i)
           \<and> (\<forall>p<C. (\<forall>i<n. p \<noteq> ring_pos C W i) \<longrightarrow> m ! p = buf b ! p))
        \<and> W \<le> C \<and> n \<le> length src"
  proof (cases "wrtn b + sz > ucast (size_f b)")
    case True
    from w g True obtain m1 m2 where
      m1: "memcpy (buf b) (unat (wrtn b)) src 0 (unat (ucast (size_f b) - wrtn b)) = Some m1"
      and m2: "memcpy m1 0 src (unat (ucast (size_f b) - wrtn b)) (unat (wrtn b + sz - ucast (size_f b))) = Some m2"
      and fb': "fb' = Some (b\<lparr>buf := m2, wrtn := wrtn b + sz - ucast (size_f b)\<rparr>)"
      by (auto simp: tryWrite_unfold split: option.splits)
    from m1 have "unat (wrtn b) + unat (ucast (size_f b) - wrtn b) \<le> unat (size_f b)"
      using l by (simp add: memcpy_Some C_def capacity_def)
    note cn = crossing_nat [OF g(2) True this]
    have WC: "W \<le> C" using cn(1) by (simp add: W_def C_def capacity_def)
    have x: "C < W + n" using cn(4) by (simp add: W_def C_def n_def capacity_def)
    have m1': "memcpy (buf b) W src 0 (C - W) = Some m1"
      using m1 cn(2) by (simp add: W_def C_def capacity_def)
    have m2': "memcpy m1 0 src (C - W) (W + n - C) = Some m2"
      using m2 cn(2,3) by (simp add: W_def C_def n_def capacity_def)
    have nC': "n < C" using nC by (simp add: n_def C_def)
    note rs = ring_store_crossing [OF m1' m2' l WC nC' x]
    have u: "unat (wrtn b + sz - ucast (size_f b)) = ring_pos C W n"
      using cn(3) x by (simp add: ring_pos_def W_def C_def n_def capacity_def)
    have ns: "n \<le> length src"
      using m2' WC x by (simp add: memcpy_Some)
    show ?thesis
      by (intro conjI exI [of _ m2] exI [of _ "wrtn b + sz - ucast (size_f b)"])
         (rule fb' u rs WC ns)+
  next
    case False
    from w g False obtain m where
      m: "memcpy (buf b) (unat (wrtn b)) src 0 (unat sz) = Some m"
      and fb': "fb' = Some (b\<lparr>buf := m, wrtn := (if wrtn b + sz = ucast (size_f b) then 0 else wrtn b + sz)\<rparr>)"
      by (auto simp: tryWrite_unfold split: option.splits)
    from m have le: "unat (wrtn b) + unat sz \<le> unat (size_f b)" and ns: "n \<le> length src"
      using l by (simp_all add: memcpy_Some C_def capacity_def n_def)
    note sn = straight_nat [OF g(2) False le]
    have m': "memcpy (buf b) W src 0 n = Some m" using m by (simp add: W_def n_def)
    note rs = ring_store_straight [OF m' l]
    have le': "W + n \<le> C" using le by (simp add: W_def C_def n_def capacity_def)
    have u: "unat (if wrtn b + sz = ucast (size_f b) then 0 else wrtn b + sz) = ring_pos C W n"
      unfolding sn(2) using le' by (simp add: ring_pos_def W_def C_def n_def capacity_def)
    have WC: "W \<le> C" using le' by linarith
    show ?thesis
      by (intro conjI exI [of _ m]
            exI [of _ "if wrtn b + sz = ucast (size_f b) then 0 else wrtn b + sz"])
         (rule fb' u rs WC ns)+
  qed
  then show "\<exists>m w'. fb' = Some (b\<lparr>buf := m, wrtn := w'\<rparr>)
           \<and> unat w' = ring_pos (capacity b) (unat (wrtn b)) (unat sz)
           \<and> length m = capacity b
           \<and> (\<forall>i<unat sz. m ! ring_pos (capacity b) (unat (wrtn b)) i = src ! i)
           \<and> (\<forall>p<capacity b. (\<forall>i<unat sz. p \<noteq> ring_pos (capacity b) (unat (wrtn b)) i)
                  \<longrightarrow> m ! p = buf b ! p)"
    and "unat (wrtn b) \<le> capacity b" and "unat sz \<le> length src"
    unfolding C_def W_def n_def by blast+
qed


lemma case_option_SomeD:
  "(case x of None \<Rightarrow> None | Some a \<Rightarrow> f a) = Some r \<Longrightarrow> \<exists>a. x = Some a \<and> f a = Some r"
  by (cases x) simp_all

lemma memcpy_defined:
  "doff + n \<le> length dst \<Longrightarrow> soff + n \<le> length src \<Longrightarrow> \<exists>m. memcpy dst doff src soff n = Some m"
  by (simp add: memcpy_def)

lemma tryRead_True_guards:
  assumes "tryRead (Some b) (Some dst) sz = Some (True, d', fb')"
  shows "0 < sz" "sz < ucast (size_f b)" "head b \<noteq> tail b" "\<not> available_data b < sz"
  using assms by (simp_all add: tryRead_unfold split: if_splits)

lemma tryRead_True_D:
  assumes ok: "storage_ok b" and r: "tryRead (Some b) (Some dst) sz = Some (True, d', fb')"
  shows "\<exists>d t'. d' = Some d \<and> fb' = Some (b\<lparr>tail := t'\<rparr>)
           \<and> unat t' = ring_pos (capacity b) (unat (tail b)) (unat sz)
           \<and> length d = length dst
           \<and> (\<forall>i<unat sz. d ! i = buf b ! ring_pos (capacity b) (unat (tail b)) i)
           \<and> (\<forall>i<length dst. unat sz \<le> i \<longrightarrow> d ! i = dst ! i)"
    and "0 < unat sz" and "unat sz < capacity b" and "unat (tail b) \<le> capacity b"
    and "unat sz \<le> length dst"
proof -
  define C where "C = capacity b"
  define T where "T = unat (tail b)"
  define n where "n = unat sz"
  note g = tryRead_True_guards [OF r]
  have l: "length (buf b) = C" using ok by (simp add: storage_ok_def C_def capacity_def)
  show n0: "0 < unat sz" using g(1) by (simp add: word_less_nat_alt)
  show nC: "unat sz < capacity b" using g(2) by (simp add: word_less_nat_alt capacity_def)
  have main: "(\<exists>d t'. d' = Some d \<and> fb' = Some (b\<lparr>tail := t'\<rparr>)
           \<and> unat t' = ring_pos C T n
           \<and> length d = length dst
           \<and> (\<forall>i<n. d ! i = buf b ! ring_pos C T i)
           \<and> (\<forall>i<length dst. n \<le> i \<longrightarrow> d ! i = dst ! i))
        \<and> T \<le> C \<and> n \<le> length dst"
  proof (cases "tail b + sz > ucast (size_f b)")
    case True
    from r g True have
      "(case memcpy dst 0 (buf b) (unat (tail b)) (unat (ucast (size_f b) - tail b)) of
              None \<Rightarrow> None
            | Some d1 \<Rightarrow>
                (case memcpy d1 (unat (ucast (size_f b) - tail b)) (buf b) 0 (unat (tail b + sz - ucast (size_f b))) of
                   None \<Rightarrow> None
                 | Some d2 \<Rightarrow> Some (True, Some d2, Some (b\<lparr>tail := tail b + sz - ucast (size_f b)\<rparr>))))
        = Some (True, d', fb')"
      by (simp add: tryRead_unfold)
    then obtain d1 where
      d1: "memcpy dst 0 (buf b) (unat (tail b)) (unat (ucast (size_f b) - tail b)) = Some d1"
      and "(case memcpy d1 (unat (ucast (size_f b) - tail b)) (buf b) 0 (unat (tail b + sz - ucast (size_f b))) of
                   None \<Rightarrow> None
                 | Some d2 \<Rightarrow> Some (True, Some d2, Some (b\<lparr>tail := tail b + sz - ucast (size_f b)\<rparr>)))
        = Some (True, d', fb')"
      by (blast dest: case_option_SomeD)
    then obtain d2 where
      d2: "memcpy d1 (unat (ucast (size_f b) - tail b)) (buf b) 0 (unat (tail b + sz - ucast (size_f b))) = Some d2"
      and "Some (True, Some d2, Some (b\<lparr>tail := tail b + sz - ucast (size_f b)\<rparr>)) = Some (True, d', fb')"
      by (blast dest: case_option_SomeD)
    then have res: "d' = Some d2" "fb' = Some (b\<lparr>tail := tail b + sz - ucast (size_f b)\<rparr>)"
      by simp_all
    from d1 have "unat (tail b) + unat (ucast (size_f b) - tail b) \<le> unat (size_f b)"
      using l by (simp add: memcpy_Some C_def capacity_def)
    note cn = crossing_nat [OF g(2) True this]
    have TC: "T \<le> C" using cn(1) by (simp add: T_def C_def capacity_def)
    have x: "C < T + n" using cn(4) by (simp add: T_def C_def n_def capacity_def)
    have d1': "memcpy dst 0 (buf b) T (C - T) = Some d1"
      using d1 cn(2) by (simp add: T_def C_def capacity_def)
    have d2': "memcpy d1 (C - T) (buf b) 0 (T + n - C) = Some d2"
      using d2 cn(2,3) by (simp add: T_def C_def n_def capacity_def)
    note rl = ring_load_crossing [OF d1' d2' TC x]
    have u: "unat (tail b + sz - ucast (size_f b)) = ring_pos C T n"
      using cn(3) x by (simp add: ring_pos_def T_def C_def n_def capacity_def)
    show ?thesis
      by (intro conjI exI [of _ d2] exI [of _ "tail b + sz - ucast (size_f b)"])
         (rule res u rl TC)+
  next
    case False
    from r g False have
      "(case memcpy dst 0 (buf b) (unat (tail b)) (unat sz) of
              None \<Rightarrow> None
            | Some d \<Rightarrow>
                Some (True, Some d,
                      Some (b\<lparr>tail := (if tail b + sz = ucast (size_f b) then 0 else tail b + sz)\<rparr>)))
        = Some (True, d', fb')"
      by (simp add: tryRead_unfold)
    then obtain d where
      d: "memcpy dst 0 (buf b) (unat (tail b)) (unat sz) = Some d"
      and "Some (True, Some d,
                      Some (b\<lparr>tail := (if tail b + sz = ucast (size_f b) then 0 else tail b + sz)\<rparr>))
        = Some (True, d', fb')"
      by (blast dest: case_option_SomeD)
    then have res: "d' = Some d"
        "fb' = Some (b\<lparr>tail := (if tail b + sz = ucast (size_f b) then 0 else tail b + sz)\<rparr>)"
      by simp_all
    from d have le: "unat (tail b) + unat sz \<le> unat (size_f b)"
      using l by (simp_all add: memcpy_Some C_def capacity_def n_def)
    note sn = straight_nat [OF g(2) False le]
    have d': "memcpy dst 0 (buf b) T n = Some d" using d by (simp add: T_def n_def)
    note rl = ring_load_straight [OF d' l]
    have le': "T + n \<le> C" using le by (simp add: T_def C_def n_def capacity_def)
    have u: "unat (if tail b + sz = ucast (size_f b) then 0 else tail b + sz) = ring_pos C T n"
      unfolding sn(2) using le' by (simp add: ring_pos_def T_def C_def n_def capacity_def)
    have TC: "T \<le> C" using le' by linarith
    show ?thesis
      by (intro conjI exI [of _ d]
            exI [of _ "if tail b + sz = ucast (size_f b) then 0 else tail b + sz"])
         (rule res u rl TC)+
  qed
  then show "\<exists>d t'. d' = Some d \<and> fb' = Some (b\<lparr>tail := t'\<rparr>)
           \<and> unat t' = ring_pos (capacity b) (unat (tail b)) (unat sz)
           \<and> length d = length dst
           \<and> (\<forall>i<unat sz. d ! i = buf b ! ring_pos (capacity b) (unat (tail b)) i)
           \<and> (\<forall>i<length dst. unat sz \<le> i \<longrightarrow> d ! i = dst ! i)"
    and "unat (tail b) \<le> capacity b" and "unat sz \<le> length dst"
    unfolding C_def T_def n_def by blast+
qed

lemma in_range_nat:
  fixes w sz :: "64 word" and c :: "32 word"
  assumes "w < ucast c" and "sz < ucast c"
  shows "unat w < unat c" "unat sz < unat c" "unat (w + sz) = unat w + unat sz"
    "unat (ucast c - w) = unat c - unat w"
    "w + sz > ucast c \<Longrightarrow> unat (w + sz - ucast c) = unat w + unat sz - unat c"
    "w + sz > ucast c \<longleftrightarrow> unat c < unat w + unat sz"
proof -
  have c: "unat c < 4294967296" by (rule unat_uint32_bound)
  show w: "unat w < unat c" and n: "unat sz < unat c"
    using assms by (simp_all add: word_less_nat_alt)
  show s: "unat (w + sz) = unat w + unat sz"
    using w n c by (simp add: unat_add_lem [symmetric])
  show "unat (ucast c - w) = unat c - unat w"
    using w by (simp add: unat_sub_if')
  show x: "w + sz > ucast c \<longleftrightarrow> unat c < unat w + unat sz"
    using s by (simp add: word_less_nat_alt)
  show "unat (w + sz - ucast c) = unat w + unat sz - unat c" if "w + sz > ucast c"
    using that x s by (simp add: unat_sub_if')
qed

lemma tryWrite_succeeds:
  assumes ok: "storage_ok b" and w: "wrtn b < ucast (size_f b)"
    and g: "0 < sz" "sz < ucast (size_f b)" "\<not> free_space b \<le> sz"
    and src: "unat sz \<le> length src"
  shows "\<exists>fb'. tryWrite (Some b) (Some src) sz = Some (True, fb')"
proof -
  note nat = in_range_nat [OF w g(2)]
  have l: "length (buf b) = unat (size_f b)" using ok by (simp add: storage_ok_def)
  show ?thesis
  proof (cases "wrtn b + sz > ucast (size_f b)")
    case True
    then have x: "unat (size_f b) < unat (wrtn b) + unat sz" using nat(6) by simp
    have "unat (wrtn b) + (unat (size_f b) - unat (wrtn b)) \<le> length (buf b)"
      and "0 + (unat (size_f b) - unat (wrtn b)) \<le> length src"
      using l nat(1,2) x src by linarith+
    then obtain m1 where m1: "memcpy (buf b) (unat (wrtn b)) src 0 (unat (size_f b) - unat (wrtn b)) = Some m1"
      by (blast dest: memcpy_defined)
    have l1: "length m1 = unat (size_f b)" using memcpy_length [OF m1] l by simp
    have "0 + (unat (wrtn b) + unat sz - unat (size_f b)) \<le> length m1"
      and "unat (size_f b) - unat (wrtn b) + (unat (wrtn b) + unat sz - unat (size_f b)) \<le> length src"
      using l1 nat(1,2) x src by linarith+
    then obtain m2 where m2: "memcpy m1 0 src (unat (size_f b) - unat (wrtn b))
        (unat (wrtn b) + unat sz - unat (size_f b)) = Some m2"
      by (blast dest: memcpy_defined)
    show ?thesis using g True m1 m2 nat(4) nat(5) [OF True]
      by (simp add: tryWrite_unfold)
  next
    case False
    then have x: "unat (wrtn b) + unat sz \<le> unat (size_f b)" using nat(6) by simp
    have "unat (wrtn b) + unat sz \<le> length (buf b)" and "0 + unat sz \<le> length src"
      using l x src by linarith+
    then obtain m where m: "memcpy (buf b) (unat (wrtn b)) src 0 (unat sz) = Some m"
      by (blast dest: memcpy_defined)
    show ?thesis using g False m by (simp add: tryWrite_unfold)
  qed
qed

lemma tryRead_succeeds:
  assumes ok: "storage_ok b" and t: "tail b < ucast (size_f b)"
    and g: "0 < sz" "sz < ucast (size_f b)" "head b \<noteq> tail b" "\<not> available_data b < sz"
    and dst: "unat sz \<le> length dst"
  shows "\<exists>d fb'. tryRead (Some b) (Some dst) sz = Some (True, Some d, fb')"
proof -
  note nat = in_range_nat [OF t g(2)]
  have l: "length (buf b) = unat (size_f b)" using ok by (simp add: storage_ok_def)
  show ?thesis
  proof (cases "tail b + sz > ucast (size_f b)")
    case True
    then have x: "unat (size_f b) < unat (tail b) + unat sz" using nat(6) by simp
    have "0 + (unat (size_f b) - unat (tail b)) \<le> length dst"
      and "unat (tail b) + (unat (size_f b) - unat (tail b)) \<le> length (buf b)"
      using l nat(1,2) x dst by linarith+
    then obtain d1 where d1: "memcpy dst 0 (buf b) (unat (tail b)) (unat (size_f b) - unat (tail b)) = Some d1"
      by (blast dest: memcpy_defined)
    have l1: "length d1 = length dst" using memcpy_length [OF d1] by simp
    have "unat (size_f b) - unat (tail b) + (unat (tail b) + unat sz - unat (size_f b)) \<le> length d1"
      and "0 + (unat (tail b) + unat sz - unat (size_f b)) \<le> length (buf b)"
      using l l1 nat(1,2) x dst by linarith+
    then obtain d2 where d2: "memcpy d1 (unat (size_f b) - unat (tail b)) (buf b) 0
        (unat (tail b) + unat sz - unat (size_f b)) = Some d2"
      by (blast dest: memcpy_defined)
    show ?thesis using g True d1 d2 nat(4) nat(5) [OF True]
      by (simp add: tryRead_unfold)
  next
    case False
    then have x: "unat (tail b) + unat sz \<le> unat (size_f b)" using nat(6) by simp
    have "0 + unat sz \<le> length dst" and "unat (tail b) + unat sz \<le> length (buf b)"
      using l x dst by linarith+
    then obtain d where d: "memcpy dst 0 (buf b) (unat (tail b)) (unat sz) = Some d"
      by (blast dest: memcpy_defined)
    show ?thesis using g False d by (simp add: tryRead_unfold)
  qed
qed


lemma to_bytes_numeral:
  "to_bytes (numeral k) w = ucast w # to_bytes (pred_numeral k) (drop_bit 8 w)"
  by (simp add: numeral_eq_Suc)

lemma length_to_bytes [simp]: "length (to_bytes k w) = k"
  by (induction k arbitrary: w) simp_all

lemma pow2_from_numeral:
  "pow2_from (numeral k) p n = (if n \<le> p then p else pow2_from (pred_numeral k) (2 * p) n)"
  by (simp add: numeral_eq_Suc)

section \<open>Transaction control and state queries\<close>

text \<open>
  C1. On a bound buffer \<open>commitWrite()\<close> does exactly one of three things: with
  \<open>invalidateCommit\<close> set it assigns \<open>wrtn := head\<close>, clears the flag and returns false;
  otherwise with \<open>head = wrtn\<close> it returns false and changes nothing; otherwise it assigns
  \<open>head := wrtn\<close> and returns true.
\<close>

theorem commitWrite_cases:
  "commitWrite (Some b) =
     (if invalidateCommit b then (False, Some (b\<lparr>wrtn := head b, invalidateCommit := False\<rparr>))
      else if head b = wrtn b then (False, Some b)
      else (True, Some (b\<lparr>head := wrtn b\<rparr>)))"
  by (simp add: commitWrite_def)

theorem commitWrite_cases_witness:
  "commitWrite (Some \<lparr>size_f = 8, head = 2, tail = 1, wrtn = 5, invalidateCommit = False, buf = replicate 8 0\<rparr>)
     = (True, Some \<lparr>size_f = 8, head = 5, tail = 1, wrtn = 5, invalidateCommit = False, buf = replicate 8 0\<rparr>)
   \<and> commitWrite (Some \<lparr>size_f = 8, head = 2, tail = 1, wrtn = 5, invalidateCommit = True, buf = replicate 8 0\<rparr>)
     = (False, Some \<lparr>size_f = 8, head = 2, tail = 1, wrtn = 2, invalidateCommit = False, buf = replicate 8 0\<rparr>)
   \<and> commitWrite (Some \<lparr>size_f = 8, head = 2, tail = 1, wrtn = 2, invalidateCommit = False, buf = replicate 8 0\<rparr>)
     = (False, Some \<lparr>size_f = 8, head = 2, tail = 1, wrtn = 2, invalidateCommit = False, buf = replicate 8 0\<rparr>)"
  using commitWrite_cases [of "\<lparr>size_f = 8, head = 2, tail = 1, wrtn = 5, invalidateCommit = False, buf = replicate 8 0\<rparr>"]
    commitWrite_cases [of "\<lparr>size_f = 8, head = 2, tail = 1, wrtn = 5, invalidateCommit = True, buf = replicate 8 0\<rparr>"]
    commitWrite_cases [of "\<lparr>size_f = 8, head = 2, tail = 1, wrtn = 2, invalidateCommit = False, buf = replicate 8 0\<rparr>"]
  by simp


text \<open>
  C6 (as amended). On a bound buffer \<open>isEmpty()\<close> is true exactly when \<open>head = tail\<close> and
  \<open>isDataAvailableForReading()\<close> exactly when \<open>head \<noteq> tail\<close>; on an unbound engine both return
  false.
\<close>

theorem state_queries:
  "isEmpty (Some b) = (head b = tail b)
   \<and> isDataAvailableForReading (Some b) = (head b \<noteq> tail b)
   \<and> isEmpty None = False
   \<and> isDataAvailableForReading None = False"
  by (simp add: isEmpty_def isDataAvailableForReading_def)

text \<open>
  C6 as stated says that the unbound \<open>isDataAvailableForReading()\<close> returns true; it returns
  false.
\<close>

theorem isDataAvailableForReading_unbound_counterexample:
  "\<not> (isEmpty None = False \<and> isDataAvailableForReading None = True)"
  by (simp add: isEmpty_def isDataAvailableForReading_def)

section \<open>Rejected requests\<close>

text \<open>
  C7. A primitive read or write on an unbound engine, with a null data pointer, with size 0
  or with a size not below the capacity returns false and leaves the buffer (cursors, flag and
  storage) and the caller's region as they were.
\<close>

theorem rejected_request_mutates_nothing:
  assumes "fb = None \<or> p = None \<or> sz = 0 \<or> (\<exists>b. fb = Some b \<and> sz \<ge> ucast (size_f b))"
  shows "tryWrite fb p sz = Some (False, fb) \<and> tryRead fb p sz = Some (False, p, fb)"
proof -
  have w: "tryWrite fb p sz = Some (False, fb)"
  proof (cases fb)
    case None
    then show ?thesis by (simp add: tryWrite_def)
  next
    case (Some b)
    show ?thesis
    proof (cases p)
      case None
      then show ?thesis using Some by (simp add: tryWrite_def)
    next
      case (Some bytebuf)
      from assms \<open>fb = Some b\<close> Some have "sz = 0 \<or> \<not> sz < ucast (size_f b)"
        by (auto simp: not_less)
      then show ?thesis using \<open>fb = Some b\<close> Some
        by (auto simp: tryWrite_def)
    qed
  qed
  have r: "tryRead fb p sz = Some (False, p, fb)"
  proof (cases fb)
    case None
    then show ?thesis by (simp add: tryRead_def)
  next
    case (Some b)
    show ?thesis
    proof (cases p)
      case None
      then show ?thesis using Some by (simp add: tryRead_def)
    next
      case (Some bytebuf)
      from assms \<open>fb = Some b\<close> Some have "sz = 0 \<or> \<not> sz < ucast (size_f b)"
        by (auto simp: not_less)
      then show ?thesis using \<open>fb = Some b\<close> Some
        by (auto simp: tryRead_def)
    qed
  qed
  show ?thesis using w r by simp
qed

theorem rejected_request_mutates_nothing_witness:
  "tryWrite (Some \<lparr>size_f = 4, head = 1, tail = 3, wrtn = 2, invalidateCommit = False, buf = [9, 8, 7, 6]\<rparr>)
      (Some [1, 2, 3, 4, 5]) 5
     = Some (False, Some \<lparr>size_f = 4, head = 1, tail = 3, wrtn = 2, invalidateCommit = False, buf = [9, 8, 7, 6]\<rparr>)
   \<and> tryRead (Some \<lparr>size_f = 4, head = 1, tail = 3, wrtn = 2, invalidateCommit = False, buf = [9, 8, 7, 6]\<rparr>)
      (Some [1, 2, 3, 4, 5]) 5
     = Some (False, Some [1, 2, 3, 4, 5],
         Some \<lparr>size_f = 4, head = 1, tail = 3, wrtn = 2, invalidateCommit = False, buf = [9, 8, 7, 6]\<rparr>)"
  using rejected_request_mutates_nothing
    [of "Some \<lparr>size_f = 4, head = 1, tail = 3, wrtn = 2, invalidateCommit = False, buf = [9, 8, 7, 6]\<rparr>"
        "Some [1, 2, 3, 4, 5]" 5]
  by simp

section \<open>The heap wrapper\<close>

text \<open>
  C10. \<open>createBuffer(size)\<close> on a heap ring buffer whose engine is already bound to
  \<open>fHeapBuffer\<close> replaces the capacity and the storage and nothing else: \<open>setRingBuffer\<close>
  returns at once because the pointer is the current binding, so \<open>clear()\<close> is not called,
  \<open>head\<close>, \<open>tail\<close>, \<open>wrtn\<close> and \<open>invalidateCommit\<close> keep their values and the new storage is
  whatever the allocation gave. There is a bound buffer with cursors in range for which the
  capacity shrinks, \<open>head\<close> ends up not below the new capacity and the new storage is not
  zero.
\<close>

theorem createBuffer_while_bound:
  assumes "fBuffer h = addr_fHeapBuffer" and "0 < sz"
  shows "createBuffer (Some a) sz h =
           Inr (h\<lparr>fHeapBuffer := (fHeapBuffer h)\<lparr>size_f := carla_nextPowerOf2 sz, buf := a\<rparr>\<rparr>)
         \<and> (\<exists>h0 a0 sz0 h1.
               fBuffer h0 = addr_fHeapBuffer \<and> 0 < sz0 \<and> cursors_in_range (fHeapBuffer h0)
               \<and> createBuffer (Some a0) sz0 h0 = Inr h1
               \<and> size_f (fHeapBuffer h1) < size_f (fHeapBuffer h0)
               \<and> head (fHeapBuffer h1) \<ge> ucast (size_f (fHeapBuffer h1))
               \<and> buf (fHeapBuffer h1) ! 0 \<noteq> 0)"
proof -
  have gen: "createBuffer (Some a') sz' h' =
      Inr (h'\<lparr>fHeapBuffer := (fHeapBuffer h')\<lparr>size_f := carla_nextPowerOf2 sz', buf := a'\<rparr>\<rparr>)"
    if "fBuffer h' = addr_fHeapBuffer" and "0 < sz'" for a' sz' h'
    using that by (simp add: createBuffer_def setRingBuffer_def Let_def)
  define h0 where "h0 = \<lparr>fBuffer = addr_fHeapBuffer,
     fHeapBuffer = \<lparr>size_f = 16, head = 10, tail = 0, wrtn = 10, invalidateCommit = False,
                    buf = replicate 16 0\<rparr>\<rparr>"
  define h1 where "h1 = h0\<lparr>fHeapBuffer := (fHeapBuffer h0)\<lparr>size_f := 4, buf := [1, 2, 3, 4]\<rparr>\<rparr>"
  have np: "carla_nextPowerOf2 3 = 4"
    by (simp add: carla_nextPowerOf2_def pow2_from_numeral)
  have f1: "fBuffer h0 = addr_fHeapBuffer" and f2: "(0 :: uint32_t) < 3"
    and f3: "cursors_in_range (fHeapBuffer h0)"
    by (simp_all add: h0_def cursors_in_range_def)
  have f4: "createBuffer (Some [1, 2, 3, 4]) 3 h0 = Inr h1"
    using gen [OF f1 f2] np by (simp add: h1_def)
  have f5: "size_f (fHeapBuffer h1) < size_f (fHeapBuffer h0)"
    and f6: "head (fHeapBuffer h1) \<ge> ucast (size_f (fHeapBuffer h1))"
    and f7: "buf (fHeapBuffer h1) ! 0 \<noteq> 0"
    by (simp_all add: h0_def h1_def)
  have "\<exists>h0 a0 sz0 h1.
               fBuffer h0 = addr_fHeapBuffer \<and> 0 < sz0 \<and> cursors_in_range (fHeapBuffer h0)
               \<and> createBuffer (Some a0) sz0 h0 = Inr h1
               \<and> size_f (fHeapBuffer h1) < size_f (fHeapBuffer h0)
               \<and> head (fHeapBuffer h1) \<ge> ucast (size_f (fHeapBuffer h1))
               \<and> buf (fHeapBuffer h1) ! 0 \<noteq> 0"
    apply (rule exI [of _ h0])
    apply (rule exI [of _ "[1, 2, 3, 4]"])
    apply (rule exI [of _ 3])
    apply (rule exI [of _ h1])
    apply (intro conjI)
    apply (rule f1 f2 f3 f4 f5 f6 f7)+
    done
  then show ?thesis using gen [OF assms] by simp
qed

theorem createBuffer_while_bound_witness:
  "createBuffer (Some [1, 2, 3, 4]) 3
       \<lparr>fBuffer = addr_fHeapBuffer,
        fHeapBuffer = \<lparr>size_f = 16, head = 10, tail = 0, wrtn = 10, invalidateCommit = True,
                       buf = replicate 16 0\<rparr>\<rparr>
     = Inr \<lparr>fBuffer = addr_fHeapBuffer,
        fHeapBuffer = \<lparr>size_f = 4, head = 10, tail = 0, wrtn = 10, invalidateCommit = True,
                       buf = [1, 2, 3, 4]\<rparr>\<rparr>"
proof -
  have a: "fBuffer \<lparr>fBuffer = addr_fHeapBuffer,
        fHeapBuffer = \<lparr>size_f = 16, head = 10, tail = 0, wrtn = 10, invalidateCommit = True,
                       buf = replicate 16 0\<rparr>\<rparr> = addr_fHeapBuffer"
    and b: "(0 :: uint32_t) < 3"
    by simp_all
  have np: "carla_nextPowerOf2 3 = 4"
    by (simp add: carla_nextPowerOf2_def pow2_from_numeral)
  show ?thesis
    using createBuffer_while_bound [OF a b, of "[1, 2, 3, 4]"] np by simp
qed

section \<open>Round trip of a committed integer\<close>

text \<open>
  C9. On a freshly cleared bound buffer of more than 4 bytes, \<open>writeInt(42)\<close> succeeds,
  \<open>commitWrite()\<close> then succeeds, \<open>readInt()\<close> then returns 42, and afterwards
  \<open>head = tail\<close>: the buffer is empty again.
\<close>

theorem writeInt_commitWrite_readInt:
  assumes cl: "clear (Some b0) = Some (Some b)" and cap: "4 < size_f b0"
  shows "\<exists>b1 b2 b3. writeInt (Some b) 42 = Some (True, Some b1)
           \<and> commitWrite (Some b1) = (True, Some b2)
           \<and> readInt (Some b2) = Some (42, Some b3)
           \<and> head b3 = tail b3 \<and> isEmpty (Some b3)"
proof -
  define z where "z = replicate (unat (size_f b0)) 0 @ drop (unat (size_f b0)) (buf b0)"
  from cl have len0: "unat (size_f b0) \<le> length (buf b0)"
    and b: "b = b0\<lparr>head := 0, tail := 0, wrtn := 0, invalidateCommit := False, buf := z\<rparr>"
    by (auto simp: clear_def carla_zeroBytes_def obj_def z_def split: if_splits)
  have c4: "4 < unat (size_f b0)" using cap by (simp add: word_less_nat_alt)
  have lz: "length z = length (buf b0)" using len0 by (simp add: z_def)
  have len: "4 \<le> length z" using len0 c4 lz by linarith
  have g: "(0 :: size_t) < 4" "(4 :: size_t) < ucast (size_f b0)"
    "\<not> ucast (size_f b0) \<le> (4 :: size_t)" "\<not> ucast (size_f b0) < (4 :: size_t)"
    "(4 :: size_t) \<noteq> ucast (size_f b0)"
    using c4 by (simp_all add: word_less_nat_alt word_le_nat_alt word_unat_eq_iff)
  define b1 where "b1 = b\<lparr>buf := [42, 0, 0, 0] @ drop 4 z, wrtn := 4\<rparr>"
  define b2 where "b2 = b1\<lparr>head := 4\<rparr>"
  define b3 where "b3 = b2\<lparr>tail := 4\<rparr>"
  have m1: "memcpy z 0 [42, 0, 0, 0] 0 4 = Some ([42, 0, 0, 0] @ drop 4 z)"
    using len by (simp add: memcpy_def)
  have w: "writeInt (Some b) 42 = Some (True, Some b1)"
    using g m1
    by (simp add: writeInt_def tryWrite_as_def sizeof_def to_bytes_numeral tryWrite_unfold
        free_space_def b b1_def)
  have c: "commitWrite (Some b1) = (True, Some b2)"
    by (simp add: commitWrite_def b b1_def b2_def)
  have m2: "memcpy [0, 0, 0, 0] 0 ([42, 0, 0, 0] @ drop 4 z) 0 4 = Some [42, 0, 0, 0]"
    by (simp add: memcpy_def)
  have r: "readInt (Some b2) = Some (42, Some b3)"
    using g m2
    by (simp add: readInt_def tryRead_as_def sizeof_def to_bytes_numeral tryRead_unfold
        available_data_def b b1_def b2_def b3_def obj_def from_bytes_def)
  have e: "head b3 = tail b3" "isEmpty (Some b3)"
    by (simp_all add: isEmpty_def b b1_def b2_def b3_def)
  show ?thesis
    apply (rule exI [of _ b1])
    apply (rule exI [of _ b2])
    apply (rule exI [of _ b3])
    apply (intro conjI)
    apply (rule w c r e)+
    done
qed

theorem writeInt_commitWrite_readInt_witness:
  "\<exists>b1 b2 b3.
     writeInt (Some \<lparr>size_f = 8, head = 0, tail = 0, wrtn = 0, invalidateCommit = False,
                     buf = [0, 0, 0, 0, 0, 0, 0, 0]\<rparr>) 42 = Some (True, Some b1)
     \<and> commitWrite (Some b1) = (True, Some b2)
     \<and> readInt (Some b2) = Some (42, Some b3)
     \<and> head b3 = tail b3 \<and> isEmpty (Some b3)"
proof -
  have a: "clear (Some \<lparr>size_f = 8, head = 5, tail = 1, wrtn = 6, invalidateCommit = True,
                     buf = [1, 2, 3, 4, 5, 6, 7, 8]\<rparr>)
      = Some (Some \<lparr>size_f = 8, head = 0, tail = 0, wrtn = 0, invalidateCommit = False,
                     buf = [0, 0, 0, 0, 0, 0, 0, 0]\<rparr>)"
  proof -
    have rep: "replicate 8 (0 :: uint8_t) = [0, 0, 0, 0, 0, 0, 0, 0]"
      by (simp add: numeral_eq_Suc)
    show ?thesis by (simp add: clear_def carla_zeroBytes_def obj_def rep)
  qed
  have b: "4 < size_f \<lparr>size_f = 8, head = 5, tail = 1, wrtn = 6, invalidateCommit = True,
                     buf = [1, 2, 3, 4, 5, 6, 7, 8]\<rparr>"
    by simp
  show ?thesis by (rule writeInt_commitWrite_readInt [OF a b])
qed

section \<open>Unsigned scalar reads\<close>

lemma sint_nonneg_uint:
  fixes v :: "'a::len word"
  assumes "0 \<le> sint v"
  shows "uint v = sint v"
proof -
  have "sint v < 2 ^ (LENGTH('a) - 1)" by (rule sint_lt)
  also have "\<dots> \<le> 2 ^ LENGTH('a)" by (rule power_increasing) simp_all
  finally have "sint v < 2 ^ LENGTH('a)" .
  then show ?thesis using assms by (simp add: uint_sint take_bit_int_eq_self)
qed

lemma sign8: "bit (v :: 8 word) 7 \<longleftrightarrow> sint v < 0"
  using bit_last_iff [of v] by simp

lemma sign16: "bit (v :: 16 word) 15 \<longleftrightarrow> sint v < 0"
  using bit_last_iff [of v] by simp

lemma sign32: "bit (v :: 32 word) 31 \<longleftrightarrow> sint v < 0"
  using bit_last_iff [of v] by simp

lemma sign64: "bit (v :: 64 word) 63 \<longleftrightarrow> sint v < 0"
  using bit_last_iff [of v] by simp

lemma max8: "sint (v :: 8 word) \<le> INT_LEAST8_MAX"
  using sint_lt [of v] by (simp add: INT_LEAST8_MAX_def)

lemma max16: "sint (v :: 16 word) \<le> INT_LEAST16_MAX"
  using sint_lt [of v] by (simp add: INT_LEAST16_MAX_def)

lemma max32: "sint (v :: 32 word) \<le> INT_LEAST32_MAX"
  using sint_lt [of v] by (simp add: INT_LEAST32_MAX_def)

lemma max64: "sint (v :: 64 word) \<le> INT_LEAST64_MAX"
  using sint_lt [of v] by (simp add: INT_LEAST64_MAX_def)

lemma readUByte_unfold:
  "readUByte fb =
     (case tryRead fb (Some (to_bytes 1 (- 1 :: 8 word))) 1 of
        None \<Rightarrow> None
      | Some (ok, d, fb') \<Rightarrow>
          Some (if ok \<and> \<not> bit (from_bytes (obj d) :: 8 word) 7 then from_bytes (obj d) else 0, fb'))"
  by (simp add: readUByte_def tryRead_as_def sizeof_def sign8 max8 not_less split: option.splits)

lemma readUShort_unfold:
  "readUShort fb =
     (case tryRead fb (Some (to_bytes 2 (- 1 :: 16 word))) 2 of
        None \<Rightarrow> None
      | Some (ok, d, fb') \<Rightarrow>
          Some (if ok \<and> \<not> bit (from_bytes (obj d) :: 16 word) 15 then from_bytes (obj d) else 0, fb'))"
  by (simp add: readUShort_def tryRead_as_def sizeof_def sign16 max16 not_less split: option.splits)

lemma readUInt_unfold:
  "readUInt fb =
     (case tryRead fb (Some (to_bytes 4 (- 1 :: 32 word))) 4 of
        None \<Rightarrow> None
      | Some (ok, d, fb') \<Rightarrow>
          Some (if ok \<and> \<not> bit (from_bytes (obj d) :: 32 word) 31 then from_bytes (obj d) else 0, fb'))"
  by (simp add: readUInt_def tryRead_as_def sizeof_def sign32 max32 not_less split: option.splits)

lemma readULong_unfold:
  "readULong fb =
     (case tryRead fb (Some (to_bytes 8 (- 1 :: 64 word))) 8 of
        None \<Rightarrow> None
      | Some (ok, d, fb') \<Rightarrow>
          Some (if ok \<and> \<not> bit (from_bytes (obj d) :: 64 word) 63 then from_bytes (obj d) else 0, fb'))"
  by (simp add: readULong_def tryRead_as_def sizeof_def sign64 max64 not_less split: option.splits)

lemma signed_reads_width:
  "readByte fb = map_option (\<lambda>(ok, d, fb'). (if ok then from_bytes (obj d) else 0, fb'))
       (tryRead fb (Some (to_bytes 1 (0 :: 8 word))) 1)"
  "readShort fb = map_option (\<lambda>(ok, d, fb'). (if ok then from_bytes (obj d) else 0, fb'))
       (tryRead fb (Some (to_bytes 2 (0 :: 16 word))) 2)"
  "readInt fb = map_option (\<lambda>(ok, d, fb'). (if ok then from_bytes (obj d) else 0, fb'))
       (tryRead fb (Some (to_bytes 4 (0 :: 32 word))) 4)"
  "readLong fb = map_option (\<lambda>(ok, d, fb'). (if ok then from_bytes (obj d) else 0, fb'))
       (tryRead fb (Some (to_bytes 8 (0 :: 64 word))) 8)"
  by (simp_all add: readByte_def readShort_def readInt_def readLong_def tryRead_as_def sizeof_def
      split: option.splits)


text \<open>
  C8. Each unsigned scalar read (\<open>readUByte\<close>, \<open>readUShort\<close>, \<open>readUInt\<close>, \<open>readULong\<close>) calls
  \<open>tryRead\<close> with the size of the signed type of that width (1, 2, 4, 8 bytes, the sizes the
  signed readers use). If the read succeeds and the sign bit of the value read is clear, it
  returns that value; if the sign bit is set or the read fails, it returns 0. A clear sign bit
  means that the signed value lies between 0 and the maximum of the signed type, and then the
  unsigned and the signed readings of the bits agree.
\<close>

theorem unsigned_reads:
  "readUByte fb =
     (case tryRead fb (Some (to_bytes 1 (- 1 :: 8 word))) 1 of
        None \<Rightarrow> None
      | Some (ok, d, fb') \<Rightarrow>
          Some (if ok \<and> \<not> bit (from_bytes (obj d) :: 8 word) 7 then from_bytes (obj d) else 0, fb'))
   \<and> readUShort fb =
     (case tryRead fb (Some (to_bytes 2 (- 1 :: 16 word))) 2 of
        None \<Rightarrow> None
      | Some (ok, d, fb') \<Rightarrow>
          Some (if ok \<and> \<not> bit (from_bytes (obj d) :: 16 word) 15 then from_bytes (obj d) else 0, fb'))
   \<and> readUInt fb =
     (case tryRead fb (Some (to_bytes 4 (- 1 :: 32 word))) 4 of
        None \<Rightarrow> None
      | Some (ok, d, fb') \<Rightarrow>
          Some (if ok \<and> \<not> bit (from_bytes (obj d) :: 32 word) 31 then from_bytes (obj d) else 0, fb'))
   \<and> readULong fb =
     (case tryRead fb (Some (to_bytes 8 (- 1 :: 64 word))) 8 of
        None \<Rightarrow> None
      | Some (ok, d, fb') \<Rightarrow>
          Some (if ok \<and> \<not> bit (from_bytes (obj d) :: 64 word) 63 then from_bytes (obj d) else 0, fb'))
   \<and> readByte fb = map_option (\<lambda>(ok, d, fb'). (if ok then from_bytes (obj d) else 0, fb'))
       (tryRead fb (Some (to_bytes 1 (0 :: 8 word))) 1)
   \<and> readShort fb = map_option (\<lambda>(ok, d, fb'). (if ok then from_bytes (obj d) else 0, fb'))
       (tryRead fb (Some (to_bytes 2 (0 :: 16 word))) 2)
   \<and> readInt fb = map_option (\<lambda>(ok, d, fb'). (if ok then from_bytes (obj d) else 0, fb'))
       (tryRead fb (Some (to_bytes 4 (0 :: 32 word))) 4)
   \<and> readLong fb = map_option (\<lambda>(ok, d, fb'). (if ok then from_bytes (obj d) else 0, fb'))
       (tryRead fb (Some (to_bytes 8 (0 :: 64 word))) 8)
   \<and> (\<forall>v :: 8 word. (\<not> bit v 7) = (0 \<le> sint v \<and> sint v \<le> INT_LEAST8_MAX)
          \<and> (\<not> bit v 7 \<longrightarrow> uint v = sint v))
   \<and> (\<forall>v :: 16 word. (\<not> bit v 15) = (0 \<le> sint v \<and> sint v \<le> INT_LEAST16_MAX)
          \<and> (\<not> bit v 15 \<longrightarrow> uint v = sint v))
   \<and> (\<forall>v :: 32 word. (\<not> bit v 31) = (0 \<le> sint v \<and> sint v \<le> INT_LEAST32_MAX)
          \<and> (\<not> bit v 31 \<longrightarrow> uint v = sint v))
   \<and> (\<forall>v :: 64 word. (\<not> bit v 63) = (0 \<le> sint v \<and> sint v \<le> INT_LEAST64_MAX)
          \<and> (\<not> bit v 63 \<longrightarrow> uint v = sint v))"
proof -
  have r8: "(\<not> bit v 7) = (0 \<le> sint v \<and> sint v \<le> INT_LEAST8_MAX)
      \<and> (\<not> bit v 7 \<longrightarrow> uint v = sint v)" for v :: "8 word"
    using max8 [of v] sint_nonneg_uint [of v] by (auto simp: sign8)
  have r16: "(\<not> bit v 15) = (0 \<le> sint v \<and> sint v \<le> INT_LEAST16_MAX)
      \<and> (\<not> bit v 15 \<longrightarrow> uint v = sint v)" for v :: "16 word"
    using max16 [of v] sint_nonneg_uint [of v] by (auto simp: sign16)
  have r32: "(\<not> bit v 31) = (0 \<le> sint v \<and> sint v \<le> INT_LEAST32_MAX)
      \<and> (\<not> bit v 31 \<longrightarrow> uint v = sint v)" for v :: "32 word"
    using max32 [of v] sint_nonneg_uint [of v] by (auto simp: sign32)
  have r64: "(\<not> bit v 63) = (0 \<le> sint v \<and> sint v \<le> INT_LEAST64_MAX)
      \<and> (\<not> bit v 63 \<longrightarrow> uint v = sint v)" for v :: "64 word"
    using max64 [of v] sint_nonneg_uint [of v] by (auto simp: sign64)
  show ?thesis
    by (intro conjI allI)
       (rule readUByte_unfold readUShort_unfold readUInt_unfold readULong_unfold
          signed_reads_width r8 [THEN conjunct1] r8 [THEN conjunct2]
          r16 [THEN conjunct1] r16 [THEN conjunct2] r32 [THEN conjunct1] r32 [THEN conjunct2]
          r64 [THEN conjunct1] r64 [THEN conjunct2])+
qed

theorem unsigned_reads_witness:
  "readUByte (Some \<lparr>size_f = 4, head = 2, tail = 0, wrtn = 2, invalidateCommit = False,
                    buf = [133, 5, 0, 0]\<rparr>)
     = Some (0, Some \<lparr>size_f = 4, head = 2, tail = 1, wrtn = 2, invalidateCommit = False,
                    buf = [133, 5, 0, 0]\<rparr>)
   \<and> readUByte (Some \<lparr>size_f = 4, head = 2, tail = 1, wrtn = 2, invalidateCommit = False,
                    buf = [133, 5, 0, 0]\<rparr>)
     = Some (5, Some \<lparr>size_f = 4, head = 2, tail = 2, wrtn = 2, invalidateCommit = False,
                    buf = [133, 5, 0, 0]\<rparr>)
   \<and> readUByte (Some \<lparr>size_f = 4, head = 2, tail = 2, wrtn = 2, invalidateCommit = False,
                    buf = [133, 5, 0, 0]\<rparr>)
     = Some (0, Some \<lparr>size_f = 4, head = 2, tail = 2, wrtn = 2, invalidateCommit = False,
                    buf = [133, 5, 0, 0]\<rparr>)"
proof -
  have b: "bit (133 :: 8 word) 7" "\<not> bit (5 :: 8 word) 7"
    by (simp_all add: sign8)
  show ?thesis
    using b
      unsigned_reads [of "Some \<lparr>size_f = 4, head = 2, tail = 0, wrtn = 2, invalidateCommit = False,
                    buf = [133, 5, 0, 0]\<rparr>", THEN conjunct1]
      unsigned_reads [of "Some \<lparr>size_f = 4, head = 2, tail = 1, wrtn = 2, invalidateCommit = False,
                    buf = [133, 5, 0, 0]\<rparr>", THEN conjunct1]
      unsigned_reads [of "Some \<lparr>size_f = 4, head = 2, tail = 2, wrtn = 2, invalidateCommit = False,
                    buf = [133, 5, 0, 0]\<rparr>", THEN conjunct1]
    by (simp add: tryRead_unfold available_data_def memcpy_def obj_def from_bytes_def)
qed

section \<open>Free space and the failing write\<close>

lemma steps_forward_eq:
  assumes "p < c" and "t < c" and "(if p < t then t - p else c + t - p) \<le> k"
  shows "steps_forward k c p t = (if p < t then t - p else c + t - p)"
  using assms
proof (induction k arbitrary: p)
  case 0
  then show ?case by (simp split: if_splits)
next
  case (Suc k)
  define q where "q = (if Suc p = c then 0 else Suc p)"
  have qc: "q < c" using Suc.prems(1,2) by (simp add: q_def)
  show ?case
  proof (cases "q = t")
    case True
    then have "(if p < t then t - p else c + t - p) = 1"
      using Suc.prems(1,2) by (auto simp: q_def split: if_splits)
    then show ?thesis using True by (simp add: q_def Let_def)
  next
    case False
    have step: "(if p < t then t - p else c + t - p) = Suc (if q < t then t - q else c + t - q)"
      using Suc.prems(1,2) False by (auto simp: q_def split: if_splits)
    then have "(if q < t then t - q else c + t - q) \<le> k" using Suc.prems(3) by linarith
    from Suc.IH [OF qc Suc.prems(2) this]
    have "steps_forward k c q t = (if q < t then t - q else c + t - q)" .
    then show ?thesis using False step by (simp add: q_def Let_def)
  qed
qed

lemma circular_distance_eq:
  assumes "a < c" and "b < c"
  shows "circular_distance c a b = (if a < b then b - a else c + b - a)"
  unfolding circular_distance_def using assms
proof (intro steps_forward_eq)
  show "(if a < b then b - a else c + b - a) \<le> c"
  proof (cases "a < b")
    case True
    then show ?thesis using assms by simp
  next
    case False
    then have "c + b - a \<le> c" by linarith
    then show ?thesis using False by simp
  qed
qed (rule assms)+

lemma free_space_nat:
  assumes t: "tail b < ucast (size_f b)" and w: "wrtn b < ucast (size_f b)"
  shows "unat (free_space b) =
     (if unat (wrtn b) < unat (tail b) then unat (tail b) - unat (wrtn b)
      else unat (size_f b) + unat (tail b) - unat (wrtn b))"
proof -
  have c: "unat (size_f b) < 4294967296" by (rule unat_uint32_bound)
  have T: "unat (tail b) < unat (size_f b)" and W: "unat (wrtn b) < unat (size_f b)"
    using t w by (simp_all add: word_less_nat_alt)
  show ?thesis
  proof (cases "wrtn b < tail b")
    case True
    then have "unat (wrtn b) < unat (tail b)" by (simp add: word_less_nat_alt)
    then show ?thesis using True by (simp add: free_space_def unat_sub_if')
  next
    case False
    then have le: "unat (tail b) \<le> unat (wrtn b)" by (simp add: word_less_nat_alt)
    have "unat (ucast (size_f b) + tail b) = unat (size_f b) + unat (tail b)"
      using unat_add_lem [of "ucast (size_f b) :: size_t" "tail b"] T c by simp
    then have "unat (ucast (size_f b) + tail b - wrtn b) = unat (size_f b) + unat (tail b) - unat (wrtn b)"
      using W by (simp add: unat_sub_if')
    then show ?thesis using False le by (simp add: free_space_def)
  qed
qed


text \<open>
  C3. For a write request with a non-null source and \<open>0 < size < capacity\<close> on a bound buffer:
  the free space that \<open>tryWrite\<close> computes is, when \<open>tail\<close> and \<open>wrtn\<close> are in range, the circular
  distance from \<open>wrtn\<close> forward to \<open>tail\<close>; if the size is not strictly below the free space,
  \<open>tryWrite\<close> returns false with \<open>invalidateCommit\<close> set and everything else, \<open>wrtn\<close> and the
  storage included, unchanged; and a size strictly below the free space never fails.
\<close>

theorem tryWrite_insufficient_space:
  assumes "0 < sz" and "sz < ucast (size_f b)"
  shows "(tail b < ucast (size_f b) \<and> wrtn b < ucast (size_f b) \<longrightarrow>
            unat (free_space b) = circular_distance (capacity b) (unat (wrtn b)) (unat (tail b)))
       \<and> (\<not> sz < free_space b \<longrightarrow>
            tryWrite (Some b) (Some src) sz = Some (False, Some (b\<lparr>invalidateCommit := True\<rparr>)))
       \<and> (sz < free_space b \<longrightarrow> (\<forall>fb'. tryWrite (Some b) (Some src) sz \<noteq> Some (False, fb')))"
proof (intro conjI impI allI)
  assume r: "tail b < ucast (size_f b) \<and> wrtn b < ucast (size_f b)"
  then have "unat (tail b) < capacity b" "unat (wrtn b) < capacity b"
    by (simp_all add: word_less_nat_alt capacity_def)
  then have "circular_distance (capacity b) (unat (wrtn b)) (unat (tail b)) =
     (if unat (wrtn b) < unat (tail b) then unat (tail b) - unat (wrtn b)
      else capacity b + unat (tail b) - unat (wrtn b))"
    by (intro circular_distance_eq)
  then show "unat (free_space b) = circular_distance (capacity b) (unat (wrtn b)) (unat (tail b))"
    using r free_space_nat [of b] by (simp add: capacity_def)
next
  assume "\<not> sz < free_space b"
  then have "free_space b \<le> sz" by (simp add: not_less)
  then show "tryWrite (Some b) (Some src) sz = Some (False, Some (b\<lparr>invalidateCommit := True\<rparr>))"
    using assms by (simp add: tryWrite_unfold)
next
  fix fb'
  assume "sz < free_space b"
  then have "\<not> free_space b \<le> sz" by (simp add: not_le)
  then show "tryWrite (Some b) (Some src) sz \<noteq> Some (False, fb')"
    using assms by (simp add: tryWrite_unfold split: option.splits)
qed

theorem tryWrite_insufficient_space_witness:
  "unat (free_space \<lparr>size_f = 8, head = 6, tail = 2, wrtn = 6, invalidateCommit = False,
                      buf = [0, 0, 1, 2, 3, 4, 0, 0]\<rparr>) = 4
   \<and> circular_distance 8 6 2 = 4
   \<and> tryWrite (Some \<lparr>size_f = 8, head = 6, tail = 2, wrtn = 6, invalidateCommit = False,
                      buf = [0, 0, 1, 2, 3, 4, 0, 0]\<rparr>) (Some [9, 9, 9, 9]) 4
       = Some (False, Some \<lparr>size_f = 8, head = 6, tail = 2, wrtn = 6, invalidateCommit = True,
                      buf = [0, 0, 1, 2, 3, 4, 0, 0]\<rparr>)"
proof -
  define b where "b = \<lparr>size_f = 8, head = 6, tail = 2, wrtn = 6, invalidateCommit = False,
                      buf = [0, 0, 1, 2, 3, 4, 0, 0 :: uint8_t]\<rparr>"
  have a: "(0 :: size_t) < 4" "(4 :: size_t) < ucast (size_f b)"
    by (simp_all add: b_def)
  have f: "free_space b = 4" by (simp add: b_def free_space_def)
  have cd: "circular_distance 8 6 2 = 4" by (simp add: circular_distance_eq)
  have r: "tail b < ucast (size_f b) \<and> wrtn b < ucast (size_f b)" by (simp add: b_def)
  have n: "\<not> (4 :: size_t) < free_space b" by (simp add: f)
  note t = tryWrite_insufficient_space [OF a, of "[9, 9, 9, 9]"]
  from t r have "unat (free_space b) = circular_distance (capacity b) (unat (wrtn b)) (unat (tail b))"
    by blast
  moreover from t n have "tryWrite (Some b) (Some [9, 9, 9, 9]) 4 =
      Some (False, Some (b\<lparr>invalidateCommit := True\<rparr>))"
    by blast
  ultimately show ?thesis using cd by (simp add: b_def capacity_def)
qed

section \<open>The cursors stay in range\<close>

lemma cursors_in_range_pos: "cursors_in_range b \<Longrightarrow> (0 :: size_t) < ucast (size_f b)"
  by (auto simp: cursors_in_range_def word_less_nat_alt)

lemma advanced_cursor_in_range:
  fixes w sz :: size_t and c :: uint32_t
  assumes "w < ucast c" and "sz < ucast c"
  shows "w + sz > ucast c \<Longrightarrow> w + sz - ucast c < ucast c"
    and "\<not> w + sz > ucast c \<Longrightarrow> (if w + sz = ucast c then 0 else w + sz) < ucast c"
proof -
  note nat = in_range_nat [OF assms]
  show "w + sz - ucast c < ucast c" if "w + sz > ucast c"
    using nat(1,2) nat(5) [OF that] by (simp add: word_less_nat_alt)
  show "(if w + sz = ucast c then 0 else w + sz) < ucast c" if "\<not> w + sz > ucast c"
  proof (cases "w + sz = ucast c")
    case True
    then show ?thesis using nat(1) by (simp add: word_less_nat_alt)
  next
    case False
    then have "w + sz < ucast c" using that by simp
    then show ?thesis using False by simp
  qed
qed

lemma tryWrite_keeps_in_range:
  assumes "cursors_in_range b"
  shows "keeps_in_range (map_option snd (tryWrite (Some b) src sz))"
proof (cases src)
  case None
  then show ?thesis using assms by (simp add: keeps_in_range_def tryWrite_def)
next
  case (Some bytebuf)
  have w: "wrtn b < ucast (size_f b)" using assms by (simp add: cursors_in_range_def)
  show ?thesis
  proof (cases "\<not> 0 < sz \<or> \<not> sz < ucast (size_f b)")
    case True
    then show ?thesis using assms Some by (auto simp: keeps_in_range_def tryWrite_unfold)
  next
    case g: False
    show ?thesis
    proof (cases "free_space b \<le> sz")
      case True
      then show ?thesis using assms Some g
        by (auto simp: keeps_in_range_def tryWrite_unfold cursors_in_range_def)
    next
      case f: False
      from g have sz: "sz < ucast (size_f b)" by simp
      note adv = advanced_cursor_in_range [OF w sz]
      show ?thesis
      proof (cases "wrtn b + sz > ucast (size_f b)")
        case True
        then show ?thesis using assms Some g f adv(1) [OF True]
          by (auto simp: keeps_in_range_def tryWrite_unfold cursors_in_range_def
              split: option.splits)
      next
        case False
        then show ?thesis using assms Some g f adv(2) [OF False]
          by (auto simp: keeps_in_range_def tryWrite_unfold cursors_in_range_def
              split: option.splits)
      qed
    qed
  qed
qed

lemma tryRead_keeps_in_range:
  assumes "cursors_in_range b"
  shows "keeps_in_range (map_option (\<lambda>(ok, d, fb'). fb') (tryRead (Some b) dst sz))"
proof (cases dst)
  case None
  then show ?thesis using assms by (simp add: keeps_in_range_def tryRead_def)
next
  case (Some bytebuf)
  have t: "tail b < ucast (size_f b)" using assms by (simp add: cursors_in_range_def)
  show ?thesis
  proof (cases "\<not> 0 < sz \<or> \<not> sz < ucast (size_f b) \<or> head b = tail b \<or> sz > available_data b")
    case True
    then show ?thesis using assms Some by (auto simp: keeps_in_range_def tryRead_unfold)
  next
    case g: False
    from g have sz: "sz < ucast (size_f b)" by simp
    note adv = advanced_cursor_in_range [OF t sz]
    show ?thesis
    proof (cases "tail b + sz > ucast (size_f b)")
      case True
      then show ?thesis using assms Some g adv(1) [OF True]
        by (auto simp: keeps_in_range_def tryRead_unfold cursors_in_range_def
            split: option.splits)
    next
      case False
      then show ?thesis using assms Some g adv(2) [OF False]
        by (auto simp: keeps_in_range_def tryRead_unfold cursors_in_range_def
            split: option.splits)
    qed
  qed
qed


lemma keeps_in_range_mono:
  assumes "keeps_in_range r2" and "\<And>fb'. r1 = Some fb' \<Longrightarrow> r2 = Some fb'"
  shows "keeps_in_range r1"
  using assms unfolding keeps_in_range_def by simp

lemma tryRead_as_keeps_in_range:
  assumes "cursors_in_range b"
  shows "keeps_in_range (map_option (\<lambda>(ok, v, fb'). fb') (tryRead_as (Some b) init))"
proof -
  have "map_option (\<lambda>(ok, v, fb'). fb') (tryRead_as (Some b) init) =
      map_option (\<lambda>(ok, d, fb'). fb')
        (tryRead (Some b) (Some (to_bytes (sizeof init) init)) (of_nat (sizeof init)))"
    by (simp add: tryRead_as_def split: option.splits)
  then show ?thesis using tryRead_keeps_in_range [OF assms] by simp
qed

lemma scalar_reads_state:
  "map_option snd (readBool fb) = map_option (\<lambda>(ok, v, fb'). fb') (tryRead_as fb (0 :: 8 word))"
  "map_option snd (readByte fb) = map_option (\<lambda>(ok, v, fb'). fb') (tryRead_as fb (0 :: 8 word))"
  "map_option snd (readUByte fb) = map_option (\<lambda>(ok, v, fb'). fb') (tryRead_as fb (- 1 :: 8 word))"
  "map_option snd (readShort fb) = map_option (\<lambda>(ok, v, fb'). fb') (tryRead_as fb (0 :: 16 word))"
  "map_option snd (readUShort fb) = map_option (\<lambda>(ok, v, fb'). fb') (tryRead_as fb (- 1 :: 16 word))"
  "map_option snd (readInt fb) = map_option (\<lambda>(ok, v, fb'). fb') (tryRead_as fb (0 :: 32 word))"
  "map_option snd (readUInt fb) = map_option (\<lambda>(ok, v, fb'). fb') (tryRead_as fb (- 1 :: 32 word))"
  "map_option snd (readLong fb) = map_option (\<lambda>(ok, v, fb'). fb') (tryRead_as fb (0 :: 64 word))"
  "map_option snd (readULong fb) = map_option (\<lambda>(ok, v, fb'). fb') (tryRead_as fb (- 1 :: 64 word))"
  "map_option snd (readFloat fb) = map_option (\<lambda>(ok, v, fb'). fb') (tryRead_as fb (0 :: 32 word))"
  "map_option snd (readDouble fb) = map_option (\<lambda>(ok, v, fb'). fb') (tryRead_as fb (0 :: 64 word))"
  by (simp_all add: readBool_def readByte_def readUByte_def readShort_def readUShort_def
      readInt_def readUInt_def readLong_def readULong_def readFloat_def readDouble_def
      split: option.splits)

lemma scalar_reads_keep_in_range:
  assumes "cursors_in_range b"
  shows "keeps_in_range (map_option snd (readBool (Some b)))"
    "keeps_in_range (map_option snd (readByte (Some b)))"
    "keeps_in_range (map_option snd (readUByte (Some b)))"
    "keeps_in_range (map_option snd (readShort (Some b)))"
    "keeps_in_range (map_option snd (readUShort (Some b)))"
    "keeps_in_range (map_option snd (readInt (Some b)))"
    "keeps_in_range (map_option snd (readUInt (Some b)))"
    "keeps_in_range (map_option snd (readLong (Some b)))"
    "keeps_in_range (map_option snd (readULong (Some b)))"
    "keeps_in_range (map_option snd (readFloat (Some b)))"
    "keeps_in_range (map_option snd (readDouble (Some b)))"
  unfolding scalar_reads_state by (rule tryRead_as_keeps_in_range [OF assms])+

lemma custom_reads_keep_in_range:
  assumes "cursors_in_range b"
  shows "keeps_in_range (map_option snd (readCustomData (Some b) data sz))"
    "keeps_in_range (map_option snd (readCustomType (Some b) type))"
proof -
  show "keeps_in_range (map_option snd (readCustomData (Some b) data sz))"
  proof (rule keeps_in_range_mono [OF tryRead_keeps_in_range [OF assms, of data sz]])
    fix fb'
    assume "map_option snd (readCustomData (Some b) data sz) = Some fb'"
    then show "map_option (\<lambda>(ok, d, fb'). fb') (tryRead (Some b) data sz) = Some fb'"
      by (auto simp: readCustomData_def split: option.splits if_splits)
  qed
  show "keeps_in_range (map_option snd (readCustomType (Some b) type))"
  proof (rule keeps_in_range_mono
      [OF tryRead_keeps_in_range [OF assms, of "Some type" "of_nat (length type)"]])
    fix fb'
    assume "map_option snd (readCustomType (Some b) type) = Some fb'"
    then show "map_option (\<lambda>(ok, d, fb'). fb') (tryRead (Some b) (Some type) (of_nat (length type))) = Some fb'"
      by (auto simp: readCustomType_def split: option.splits if_splits)
  qed
qed

lemma writes_keep_in_range:
  assumes "cursors_in_range b"
  shows "keeps_in_range (map_option snd (writeBool (Some b) vb))"
    "keeps_in_range (map_option snd (writeByte (Some b) v8))"
    "keeps_in_range (map_option snd (writeShort (Some b) v16))"
    "keeps_in_range (map_option snd (writeInt (Some b) v32))"
    "keeps_in_range (map_option snd (writeLong (Some b) v64))"
    "keeps_in_range (map_option snd (writeFloat (Some b) v32))"
    "keeps_in_range (map_option snd (writeDouble (Some b) v64))"
    "keeps_in_range (map_option snd (writeCustomData (Some b) src sz))"
    "keeps_in_range (map_option snd (writeCustomType (Some b) value))"
  unfolding writeBool_def writeByte_def writeShort_def writeInt_def writeLong_def writeFloat_def
    writeDouble_def writeCustomData_def writeCustomType_def tryWrite_as_def
  by (rule tryWrite_keeps_in_range [OF assms])+

lemma clear_commitWrite_keep_in_range:
  assumes "cursors_in_range b"
  shows "keeps_in_range (clear (Some b))"
    "keeps_in_range (Some (snd (commitWrite (Some b))))"
proof -
  have "(0 :: size_t) < ucast (size_f b)" using assms by (rule cursors_in_range_pos)
  then show "keeps_in_range (clear (Some b))"
    by (auto simp: keeps_in_range_def clear_def cursors_in_range_def split: option.splits)
  show "keeps_in_range (Some (snd (commitWrite (Some b))))"
    using assms by (auto simp: keeps_in_range_def commitWrite_def cursors_in_range_def)
qed


lemma unat_of_nat_le: "unat (of_nat k :: 'a::len word) \<le> k"
  by (simp add: unat_of_nat)

lemma tryWrite_returns:
  assumes r: "cursors_in_range b" and ok: "storage_ok b" and src: "region_ok src sz"
  shows "tryWrite (Some b) src sz \<noteq> None"
proof (cases src)
  case None
  then show ?thesis by (simp add: tryWrite_def)
next
  case (Some bytebuf)
  have w: "wrtn b < ucast (size_f b)" using r by (simp add: cursors_in_range_def)
  have len: "unat sz \<le> length bytebuf" using src Some by (simp add: region_ok_def)
  show ?thesis
  proof (cases "0 < sz \<and> sz < ucast (size_f b) \<and> \<not> free_space b \<le> sz")
    case True
    then obtain fb' where "tryWrite (Some b) (Some bytebuf) sz = Some (True, fb')"
      using tryWrite_succeeds [OF ok w _ _ _ len] by blast
    then show ?thesis using Some by simp
  next
    case False
    then show ?thesis using Some by (auto simp: tryWrite_unfold)
  qed
qed

lemma tryRead_returns:
  assumes r: "cursors_in_range b" and ok: "storage_ok b" and dst: "region_ok dst sz"
  shows "tryRead (Some b) dst sz \<noteq> None"
proof (cases dst)
  case None
  then show ?thesis by (simp add: tryRead_def)
next
  case (Some bytebuf)
  have t: "tail b < ucast (size_f b)" using r by (simp add: cursors_in_range_def)
  have len: "unat sz \<le> length bytebuf" using dst Some by (simp add: region_ok_def)
  show ?thesis
  proof (cases "0 < sz \<and> sz < ucast (size_f b) \<and> head b \<noteq> tail b \<and> \<not> available_data b < sz")
    case True
    then obtain d fb' where "tryRead (Some b) (Some bytebuf) sz = Some (True, Some d, fb')"
      using tryRead_succeeds [OF ok t _ _ _ _ len] by blast
    then show ?thesis using Some by simp
  next
    case False
    then show ?thesis using Some by (auto simp: tryRead_unfold)
  qed
qed

lemma tryRead_False_D:
  assumes "tryRead fb dst sz = Some (False, d, fb')"
  shows "d = dst"
proof (cases fb)
  case None
  then show ?thesis using assms by (simp add: tryRead_def)
next
  case (Some b)
  show ?thesis
  proof (cases dst)
    case None
    then show ?thesis using assms Some by (simp add: tryRead_def)
  next
    case (Some bytebuf)
    then show ?thesis using assms \<open>fb = Some b\<close>
      by (auto simp: tryRead_unfold split: if_splits option.splits)
  qed
qed

lemma tryRead_as_returns:
  assumes "cursors_in_range b" and "storage_ok b"
  shows "tryRead_as (Some b) init \<noteq> None"
proof -
  have "region_ok (Some (to_bytes (sizeof init) init)) (of_nat (sizeof init))"
    by (simp add: region_ok_def unat_of_nat_le)
  from tryRead_returns [OF assms this] show ?thesis
    by (auto simp: tryRead_as_def)
qed

lemma scalar_reads_return:
  assumes "cursors_in_range b" and "storage_ok b"
  shows "readBool (Some b) \<noteq> None" "readByte (Some b) \<noteq> None" "readUByte (Some b) \<noteq> None"
    "readShort (Some b) \<noteq> None" "readUShort (Some b) \<noteq> None" "readInt (Some b) \<noteq> None"
    "readUInt (Some b) \<noteq> None" "readLong (Some b) \<noteq> None" "readULong (Some b) \<noteq> None"
    "readFloat (Some b) \<noteq> None" "readDouble (Some b) \<noteq> None"
  using tryRead_as_returns [OF assms, of "0 :: 8 word"] tryRead_as_returns [OF assms, of "- 1 :: 8 word"]
    tryRead_as_returns [OF assms, of "0 :: 16 word"] tryRead_as_returns [OF assms, of "- 1 :: 16 word"]
    tryRead_as_returns [OF assms, of "0 :: 32 word"] tryRead_as_returns [OF assms, of "- 1 :: 32 word"]
    tryRead_as_returns [OF assms, of "0 :: 64 word"] tryRead_as_returns [OF assms, of "- 1 :: 64 word"]
  by (auto simp: readBool_def readByte_def readUByte_def readShort_def readUShort_def
      readInt_def readUInt_def readLong_def readULong_def readFloat_def readDouble_def)

lemma custom_reads_return:
  assumes "cursors_in_range b" and "storage_ok b"
  shows "region_ok data sz \<Longrightarrow> readCustomData (Some b) data sz \<noteq> None"
    and "readCustomType (Some b) type \<noteq> None"
proof -
  show "readCustomData (Some b) data sz \<noteq> None" if d: "region_ok data sz"
  proof -
    from tryRead_returns [OF assms d] obtain ok d' fb' where
      t: "tryRead (Some b) data sz = Some (ok, d', fb')" by (cases "tryRead (Some b) data sz") auto
    show ?thesis
    proof (cases ok)
      case True
      then show ?thesis using t by (simp add: readCustomData_def)
    next
      case False
      then have "tryRead (Some b) data sz = Some (False, d', fb')" using t by simp
      then have "d' = data" by (rule tryRead_False_D)
      then have "carla_zeroBytes d' (unat sz) \<noteq> None"
        using d by (auto simp: carla_zeroBytes_def region_ok_def split: option.splits)
      then show ?thesis using t False by (auto simp: readCustomData_def)
    qed
  qed
  show "readCustomType (Some b) type \<noteq> None"
  proof -
    have d: "region_ok (Some type) (of_nat (length type))"
      by (simp add: region_ok_def unat_of_nat_le)
    from tryRead_returns [OF assms d] obtain ok d' fb' where
      t: "tryRead (Some b) (Some type) (of_nat (length type)) = Some (ok, d', fb')"
      by (cases "tryRead (Some b) (Some type) (of_nat (length type))") auto
    show ?thesis
    proof (cases ok)
      case True
      then show ?thesis using t by (simp add: readCustomType_def)
    next
      case False
      then have "tryRead (Some b) (Some type) (of_nat (length type)) = Some (False, d', fb')"
        using t by simp
      then have "d' = Some type" by (rule tryRead_False_D)
      then have "carla_zeroBytes d' (length type) \<noteq> None"
        by (simp add: carla_zeroBytes_def)
      then show ?thesis using t False by (auto simp: readCustomType_def)
    qed
  qed
qed

lemma writes_return:
  assumes "cursors_in_range b" and "storage_ok b"
  shows "writeBool (Some b) vb \<noteq> None" "writeByte (Some b) v8 \<noteq> None"
    "writeShort (Some b) v16 \<noteq> None" "writeInt (Some b) v32 \<noteq> None"
    "writeLong (Some b) v64 \<noteq> None" "writeFloat (Some b) v32 \<noteq> None"
    "writeDouble (Some b) v64 \<noteq> None"
    "region_ok src sz \<Longrightarrow> writeCustomData (Some b) src sz \<noteq> None"
    "writeCustomType (Some b) value \<noteq> None"
proof -
  have s: "tryWrite_as (Some b) v \<noteq> None" for v :: "'a::len word"
    unfolding tryWrite_as_def
    by (rule tryWrite_returns [OF assms]) (simp add: region_ok_def unat_of_nat_le)
  show "writeBool (Some b) vb \<noteq> None" "writeByte (Some b) v8 \<noteq> None"
    "writeShort (Some b) v16 \<noteq> None" "writeInt (Some b) v32 \<noteq> None"
    "writeLong (Some b) v64 \<noteq> None" "writeFloat (Some b) v32 \<noteq> None"
    "writeDouble (Some b) v64 \<noteq> None"
    unfolding writeBool_def writeByte_def writeShort_def writeInt_def writeLong_def
      writeFloat_def writeDouble_def by (rule s)+
  show "writeCustomData (Some b) src sz \<noteq> None" if "region_ok src sz"
    unfolding writeCustomData_def using assms that by (rule tryWrite_returns)
  show "writeCustomType (Some b) value \<noteq> None"
    unfolding writeCustomType_def
    by (rule tryWrite_returns [OF assms]) (simp add: region_ok_def unat_of_nat_le)
qed

lemma clear_returns: "storage_ok b \<Longrightarrow> clear (Some b) \<noteq> None"
  by (simp add: clear_def carla_zeroBytes_def storage_ok_def)


text \<open>
  C5. From a buffer with \<open>head\<close>, \<open>tail\<close> and \<open>wrtn\<close> below the capacity, every engine operation
  that returns leaves a bound buffer whose three cursors are again below the capacity: \<open>clear\<close>,
  \<open>commitWrite\<close>, \<open>tryRead\<close>, \<open>tryWrite\<close> and every typed reader and writer. When moreover the
  storage region has \<open>size\<close> bytes and the caller's regions are as large as the sizes passed,
  every one of these operations does return.
\<close>

theorem cursors_stay_in_range:
  assumes "cursors_in_range b"
  shows "keeps_in_range (clear (Some b))
   \<and> keeps_in_range (Some (snd (commitWrite (Some b))))
   \<and> keeps_in_range (map_option (\<lambda>(ok, d, fb'). fb') (tryRead (Some b) dst sz))
   \<and> keeps_in_range (map_option snd (tryWrite (Some b) src sz))
   \<and> keeps_in_range (map_option snd (readBool (Some b)))
   \<and> keeps_in_range (map_option snd (readByte (Some b)))
   \<and> keeps_in_range (map_option snd (readUByte (Some b)))
   \<and> keeps_in_range (map_option snd (readShort (Some b)))
   \<and> keeps_in_range (map_option snd (readUShort (Some b)))
   \<and> keeps_in_range (map_option snd (readInt (Some b)))
   \<and> keeps_in_range (map_option snd (readUInt (Some b)))
   \<and> keeps_in_range (map_option snd (readLong (Some b)))
   \<and> keeps_in_range (map_option snd (readULong (Some b)))
   \<and> keeps_in_range (map_option snd (readFloat (Some b)))
   \<and> keeps_in_range (map_option snd (readDouble (Some b)))
   \<and> keeps_in_range (map_option snd (readCustomData (Some b) dst sz))
   \<and> keeps_in_range (map_option snd (readCustomType (Some b) type))
   \<and> keeps_in_range (map_option snd (writeBool (Some b) vb))
   \<and> keeps_in_range (map_option snd (writeByte (Some b) v8))
   \<and> keeps_in_range (map_option snd (writeShort (Some b) v16))
   \<and> keeps_in_range (map_option snd (writeInt (Some b) v32))
   \<and> keeps_in_range (map_option snd (writeLong (Some b) v64))
   \<and> keeps_in_range (map_option snd (writeFloat (Some b) v32))
   \<and> keeps_in_range (map_option snd (writeDouble (Some b) v64))
   \<and> keeps_in_range (map_option snd (writeCustomData (Some b) src sz))
   \<and> keeps_in_range (map_option snd (writeCustomType (Some b) value))
   \<and> (storage_ok b \<longrightarrow>
         clear (Some b) \<noteq> None
       \<and> (region_ok dst sz \<longrightarrow> tryRead (Some b) dst sz \<noteq> None)
       \<and> (region_ok src sz \<longrightarrow> tryWrite (Some b) src sz \<noteq> None)
       \<and> readBool (Some b) \<noteq> None \<and> readByte (Some b) \<noteq> None \<and> readUByte (Some b) \<noteq> None
       \<and> readShort (Some b) \<noteq> None \<and> readUShort (Some b) \<noteq> None \<and> readInt (Some b) \<noteq> None
       \<and> readUInt (Some b) \<noteq> None \<and> readLong (Some b) \<noteq> None \<and> readULong (Some b) \<noteq> None
       \<and> readFloat (Some b) \<noteq> None \<and> readDouble (Some b) \<noteq> None
       \<and> (region_ok dst sz \<longrightarrow> readCustomData (Some b) dst sz \<noteq> None)
       \<and> readCustomType (Some b) type \<noteq> None
       \<and> writeBool (Some b) vb \<noteq> None \<and> writeByte (Some b) v8 \<noteq> None
       \<and> writeShort (Some b) v16 \<noteq> None \<and> writeInt (Some b) v32 \<noteq> None
       \<and> writeLong (Some b) v64 \<noteq> None \<and> writeFloat (Some b) v32 \<noteq> None
       \<and> writeDouble (Some b) v64 \<noteq> None
       \<and> (region_ok src sz \<longrightarrow> writeCustomData (Some b) src sz \<noteq> None)
       \<and> writeCustomType (Some b) value \<noteq> None)"
proof (intro conjI impI)
  assume ok: "storage_ok b"
  show "clear (Some b) \<noteq> None" using ok by (rule clear_returns)
  show "tryRead (Some b) dst sz \<noteq> None" if "region_ok dst sz"
    using assms ok that by (rule tryRead_returns)
  show "tryWrite (Some b) src sz \<noteq> None" if "region_ok src sz"
    using assms ok that by (rule tryWrite_returns)
  show "readCustomData (Some b) dst sz \<noteq> None" if "region_ok dst sz"
    using assms ok that by (rule custom_reads_return)
  show "writeCustomData (Some b) src sz \<noteq> None" if "region_ok src sz"
    using assms ok that by (rule writes_return)
qed (rule clear_commitWrite_keep_in_range [OF assms] tryRead_keeps_in_range [OF assms]
      tryWrite_keeps_in_range [OF assms] scalar_reads_keep_in_range [OF assms]
      custom_reads_keep_in_range [OF assms] writes_keep_in_range [OF assms]
      scalar_reads_return [OF assms] custom_reads_return(2) [OF assms]
      writes_return [OF assms]; assumption?)+

theorem cursors_stay_in_range_witness:
  "cursors_in_range \<lparr>size_f = 8, head = 5, tail = 3, wrtn = 7, invalidateCommit = False,
                      buf = [0, 0, 0, 1, 2, 0, 0, 0]\<rparr>
   \<and> tryWrite (Some \<lparr>size_f = 8, head = 5, tail = 3, wrtn = 7, invalidateCommit = False,
                      buf = [0, 0, 0, 1, 2, 0, 0, 0]\<rparr>) (Some [9, 8]) 2
       = Some (True, Some \<lparr>size_f = 8, head = 5, tail = 3, wrtn = 1, invalidateCommit = False,
                      buf = [8, 0, 0, 1, 2, 0, 0, 9]\<rparr>)
   \<and> cursors_in_range \<lparr>size_f = 8, head = 5, tail = 3, wrtn = 1, invalidateCommit = False,
                      buf = [8, 0, 0, 1, 2, 0, 0, 9]\<rparr>"
proof -
  define b where "b = \<lparr>size_f = 8, head = 5, tail = 3, wrtn = 7, invalidateCommit = False,
                      buf = [0, 0, 0, 1, 2, 0, 0, 0 :: uint8_t]\<rparr>"
  have a: "cursors_in_range b" by (simp add: b_def cursors_in_range_def)
  have w: "tryWrite (Some b) (Some [9, 8]) 2
       = Some (True, Some \<lparr>size_f = 8, head = 5, tail = 3, wrtn = 1, invalidateCommit = False,
                      buf = [8, 0, 0, 1, 2, 0, 0, 9]\<rparr>)"
    by (simp add: b_def tryWrite_unfold free_space_def memcpy_def)
  have "keeps_in_range (map_option snd (tryWrite (Some b) (Some [9, 8]) 2))"
    using cursors_stay_in_range [OF a, of _ _ "Some [9, 8]"] by blast
  then have "cursors_in_range \<lparr>size_f = 8, head = 5, tail = 3, wrtn = 1, invalidateCommit = False,
                      buf = [8, 0, 0, 1, 2, 0, 0, 9]\<rparr>"
    using w by (simp add: keeps_in_range_def)
  then show ?thesis using a w by (simp add: b_def)
qed

section \<open>Writing and reading back across the end of the storage\<close>

lemma ring_pos_mod:
  assumes "W \<le> C" and "i < C"
  shows "ring_pos C W i = (W + i) mod C"
proof (cases "W + i < C")
  case True
  then show ?thesis by (simp add: ring_pos_def)
next
  case False
  then have "(W + i) mod C = (W + i - C) mod C" by (simp add: le_mod_geq)
  also have "W + i - C < C" using assms by linarith
  then have "(W + i - C) mod C = W + i - C" by simp
  finally show ?thesis using False by (simp add: ring_pos_def)
qed

lemma commitWrite_frame:
  assumes "Some t = snd (commitWrite (Some b'))"
  shows "size_f t = size_f b'" "buf t = buf b'" "tail t = tail b'"
  using assms by (auto simp: commitWrite_def split: if_splits)

text \<open>
  C4 (as amended). Take a bound buffer whose storage region has \<open>size\<close> bytes and in which
  \<open>tail = wrtn\<close> when the write begins. If \<open>tryWrite\<close> of a byte sequence succeeds and a
  \<open>tryRead\<close> of the same size then succeeds, directly or after \<open>commitWrite()\<close>, the read returns
  exactly the bytes written. The write stores byte \<open>i\<close> at index \<open>(wrtn + i) mod capacity\<close>, so
  a write that crosses the end of the storage is split into a segment up to the end and a
  segment from index 0, and it advances \<open>wrtn\<close> to \<open>(wrtn + size) mod capacity\<close>; the read
  fetches byte \<open>i\<close> from index \<open>(tail + i) mod capacity\<close> and advances \<open>tail\<close> in the same way.
\<close>

theorem write_then_read_roundtrip:
  assumes ok: "storage_ok b" and start: "tail b = wrtn b"
    and w: "tryWrite (Some b) (Some src) sz = Some (True, Some b')"
    and t: "t = b' \<or> Some t = snd (commitWrite (Some b'))"
    and r: "tryRead (Some t) (Some dst) sz = Some (True, Some out, Some t')"
  shows "take (unat sz) out = take (unat sz) src
     \<and> (\<forall>i<unat sz. buf b' ! ((unat (wrtn b) + i) mod capacity b) = src ! i)
     \<and> unat (wrtn b') = (unat (wrtn b) + unat sz) mod capacity b
     \<and> (\<forall>i<unat sz. out ! i = buf t ! ((unat (tail t) + i) mod capacity b))
     \<and> unat (tail t') = (unat (tail t) + unat sz) mod capacity b"
proof -
  define C where "C = capacity b"
  define W where "W = unat (wrtn b)"
  define n where "n = unat sz"
  note wd = tryWrite_True_D [OF ok w]
  from wd(1) obtain m w' where b': "b' = b\<lparr>buf := m, wrtn := w'\<rparr>"
    and w': "unat w' = ring_pos C W n" and lm: "length m = C"
    and put: "\<forall>i<n. m ! ring_pos C W i = src ! i"
    unfolding C_def W_def n_def by blast
  have nC: "n < C" and WC: "W \<le> C" and ns: "n \<le> length src"
    using wd(3,4,5) by (simp_all add: n_def C_def W_def)
  have fr: "size_f t = size_f b'" "buf t = buf b'" "tail t = tail b'"
    using t commitWrite_frame [of t b'] by auto
  have tb: "size_f t = size_f b" "buf t = m" "tail t = wrtn b"
    using fr start by (simp_all add: b')
  have okt: "storage_ok t" using lm tb by (simp add: storage_ok_def C_def capacity_def)
  have ct: "capacity t = C" using tb by (simp add: capacity_def C_def)
  note rd = tryRead_True_D [OF okt r]
  from rd(1) obtain d tl' where "Some out = Some d" and t': "Some t' = Some (t\<lparr>tail := tl'\<rparr>)"
    and tl': "unat tl' = ring_pos C W n" and ld: "length d = length dst"
    and get: "\<forall>i<n. d ! i = m ! ring_pos C W i"
    unfolding ct tb n_def [symmetric] W_def [symmetric] by blast
  then have out: "out = d" by simp
  have nd: "n \<le> length out" using rd(5) ld out by (simp add: n_def)
  have eq: "\<forall>i<n. out ! i = src ! i" using get put out by simp
  have 1: "take n out = take n src"
    using nd ns eq by (intro nth_take_lemma) simp_all
  have pm: "ring_pos C W i = (W + i) mod C" if "i < C" for i
    using WC that by (rule ring_pos_mod)
  have 2: "\<forall>i<n. buf b' ! ((W + i) mod C) = src ! i"
  proof (intro allI impI)
    fix i assume i: "i < n"
    then have "i < C" using nC by linarith
    then have "ring_pos C W i = (W + i) mod C" by (rule pm)
    then show "buf b' ! ((W + i) mod C) = src ! i"
      using put [rule_format, OF i] by (simp add: b')
  qed
  have 3: "unat (wrtn b') = (W + n) mod C"
    using w' pm [OF nC] by (simp add: b')
  have 4: "\<forall>i<n. out ! i = buf t ! ((unat (tail t) + i) mod C)"
  proof (intro allI impI)
    fix i assume i: "i < n"
    then have "i < C" using nC by linarith
    then have "ring_pos C W i = (W + i) mod C" by (rule pm)
    then show "out ! i = buf t ! ((unat (tail t) + i) mod C)"
      using get [rule_format, OF i] out tb by (simp add: W_def)
  qed
  have 5: "unat (tail t') = (unat (tail t) + n) mod C"
    using t' tl' pm [OF nC] tb by (simp add: W_def)
  show ?thesis using 1 2 3 4 5 unfolding C_def W_def n_def by blast
qed


theorem write_then_read_roundtrip_witness:
  "tryWrite (Some \<lparr>size_f = 8, head = 6, tail = 6, wrtn = 6, invalidateCommit = False,
                     buf = [0, 0, 0, 0, 0, 0, 0, 0]\<rparr>) (Some [9, 8, 7]) 3
     = Some (True, Some \<lparr>size_f = 8, head = 6, tail = 6, wrtn = 1, invalidateCommit = False,
                     buf = [7, 0, 0, 0, 0, 0, 9, 8]\<rparr>)
   \<and> commitWrite (Some \<lparr>size_f = 8, head = 6, tail = 6, wrtn = 1, invalidateCommit = False,
                     buf = [7, 0, 0, 0, 0, 0, 9, 8]\<rparr>)
     = (True, Some \<lparr>size_f = 8, head = 1, tail = 6, wrtn = 1, invalidateCommit = False,
                     buf = [7, 0, 0, 0, 0, 0, 9, 8]\<rparr>)
   \<and> tryRead (Some \<lparr>size_f = 8, head = 1, tail = 6, wrtn = 1, invalidateCommit = False,
                     buf = [7, 0, 0, 0, 0, 0, 9, 8]\<rparr>) (Some [0, 0, 0]) 3
     = Some (True, Some [9, 8, 7],
         Some \<lparr>size_f = 8, head = 1, tail = 1, wrtn = 1, invalidateCommit = False,
                     buf = [7, 0, 0, 0, 0, 0, 9, 8]\<rparr>)
   \<and> take (unat (3 :: size_t)) [9, 8, 7 :: uint8_t] = take (unat (3 :: size_t)) [9, 8, 7]"
proof -
  define b where "b = \<lparr>size_f = 8, head = 6, tail = 6, wrtn = 6, invalidateCommit = False,
                     buf = [0, 0, 0, 0, 0, 0, 0, 0 :: uint8_t]\<rparr>"
  define b1 where "b1 = \<lparr>size_f = 8, head = 6, tail = 6, wrtn = 1, invalidateCommit = False,
                     buf = [7, 0, 0, 0, 0, 0, 9, 8 :: uint8_t]\<rparr>"
  define b2 where "b2 = \<lparr>size_f = 8, head = 1, tail = 6, wrtn = 1, invalidateCommit = False,
                     buf = [7, 0, 0, 0, 0, 0, 9, 8 :: uint8_t]\<rparr>"
  define b3 where "b3 = \<lparr>size_f = 8, head = 1, tail = 1, wrtn = 1, invalidateCommit = False,
                     buf = [7, 0, 0, 0, 0, 0, 9, 8 :: uint8_t]\<rparr>"
  have ok: "storage_ok b" by (simp add: b_def storage_ok_def)
  have start: "tail b = wrtn b" by (simp add: b_def)
  have w: "tryWrite (Some b) (Some [9, 8, 7]) 3 = Some (True, Some b1)"
    by (simp add: b_def b1_def tryWrite_unfold free_space_def memcpy_def)
  have c: "commitWrite (Some b1) = (True, Some b2)"
    by (simp add: b1_def b2_def commitWrite_def)
  then have t: "b2 = b1 \<or> Some b2 = snd (commitWrite (Some b1))" by simp
  have r: "tryRead (Some b2) (Some [0, 0, 0]) 3 = Some (True, Some [9, 8, 7], Some b3)"
    by (simp add: b2_def b3_def tryRead_unfold available_data_def memcpy_def)
  from write_then_read_roundtrip [OF ok start w t r]
  have "take (unat (3 :: size_t)) [9, 8, 7 :: uint8_t] = take (unat (3 :: size_t)) [9, 8, 7]"
    by blast
  then show ?thesis using w c r unfolding b_def b1_def b2_def b3_def by blast
qed

text \<open>
  C4 as stated. With older committed bytes still unread, a write that crosses the end of the
  storage succeeds, the read of the same size that follows succeeds too (directly, or after
  \<open>commitWrite\<close>), and it returns the older bytes, not the ones just written.
\<close>

theorem write_then_read_counterexample:
  "(6 :: size_t) + 3 > ucast (8 :: uint32_t)
   \<and> tryWrite (Some \<lparr>size_f = 8, head = 6, tail = 2, wrtn = 6, invalidateCommit = False,
                     buf = [0, 0, 1, 2, 3, 4, 0, 0]\<rparr>) (Some [9, 8, 7]) 3
     = Some (True, Some \<lparr>size_f = 8, head = 6, tail = 2, wrtn = 1, invalidateCommit = False,
                     buf = [7, 0, 1, 2, 3, 4, 9, 8]\<rparr>)
   \<and> tryRead (Some \<lparr>size_f = 8, head = 6, tail = 2, wrtn = 1, invalidateCommit = False,
                     buf = [7, 0, 1, 2, 3, 4, 9, 8]\<rparr>) (Some [0, 0, 0]) 3
     = Some (True, Some [1, 2, 3],
         Some \<lparr>size_f = 8, head = 6, tail = 5, wrtn = 1, invalidateCommit = False,
                     buf = [7, 0, 1, 2, 3, 4, 9, 8]\<rparr>)
   \<and> commitWrite (Some \<lparr>size_f = 8, head = 6, tail = 2, wrtn = 1, invalidateCommit = False,
                     buf = [7, 0, 1, 2, 3, 4, 9, 8]\<rparr>)
     = (True, Some \<lparr>size_f = 8, head = 1, tail = 2, wrtn = 1, invalidateCommit = False,
                     buf = [7, 0, 1, 2, 3, 4, 9, 8]\<rparr>)
   \<and> tryRead (Some \<lparr>size_f = 8, head = 1, tail = 2, wrtn = 1, invalidateCommit = False,
                     buf = [7, 0, 1, 2, 3, 4, 9, 8]\<rparr>) (Some [0, 0, 0]) 3
     = Some (True, Some [1, 2, 3],
         Some \<lparr>size_f = 8, head = 1, tail = 5, wrtn = 1, invalidateCommit = False,
                     buf = [7, 0, 1, 2, 3, 4, 9, 8]\<rparr>)
   \<and> [1, 2, 3] \<noteq> [9, 8, 7 :: uint8_t]"
  by (simp add: tryWrite_unfold free_space_def tryRead_unfold available_data_def memcpy_def
      commitWrite_def)

section \<open>A failed write group is rolled back\<close>

lemma available_data_nat:
  assumes h: "head b < ucast (size_f b)" and t: "tail b < ucast (size_f b)"
  shows "unat (available_data b) =
     (if unat (tail b) < unat (head b) then unat (head b) - unat (tail b)
      else unat (size_f b) + unat (head b) - unat (tail b))"
proof -
  have c: "unat (size_f b) < 4294967296" by (rule unat_uint32_bound)
  have H: "unat (head b) < unat (size_f b)" and T: "unat (tail b) < unat (size_f b)"
    using h t by (simp_all add: word_less_nat_alt)
  show ?thesis
  proof (cases "tail b < head b")
    case True
    then have "unat (tail b) < unat (head b)" by (simp add: word_less_nat_alt)
    then show ?thesis using True by (simp add: available_data_def unat_sub_if')
  next
    case False
    then have le: "unat (head b) \<le> unat (tail b)" by (simp add: word_less_nat_alt)
    have "unat (ucast (size_f b) + head b) = unat (size_f b) + unat (head b)"
      using unat_add_lem [of "ucast (size_f b) :: size_t" "head b"] H c by simp
    then have "unat (ucast (size_f b) + head b - tail b) = unat (size_f b) + unat (head b) - unat (tail b)"
      using T by (simp add: unat_sub_if')
    then show ?thesis using False le by (simp add: available_data_def)
  qed
qed

text \<open>The write cursor is outside the readable part, and stays so when it advances by less
  than the free space; the indices written are not readable.\<close>

lemma pending_outside_readable:
  fixes C H T W n :: nat
  assumes W: "W < C" and J: "(T \<le> H \<and> (H \<le> W \<or> W < T)) \<or> (H < T \<and> H \<le> W \<and> W < T)"
    and H: "H < C" and T: "T < C"
    and n: "n < (if W < T then T - W else C + T - W)"
  shows "ring_pos C W n < C"
    and "(T \<le> H \<and> (H \<le> ring_pos C W n \<or> ring_pos C W n < T))
         \<or> (H < T \<and> H \<le> ring_pos C W n \<and> ring_pos C W n < T)"
    and "\<forall>i<n. \<not> (T \<le> H \<and> T \<le> ring_pos C W i \<and> ring_pos C W i < H)
              \<and> \<not> (H < T \<and> (T \<le> ring_pos C W i \<or> ring_pos C W i < H))"
proof -
  have n1: "W < T \<Longrightarrow> n < T - W" and n2: "\<not> W < T \<Longrightarrow> n < C + T - W"
    using n by simp_all
  have bound: "n < C + T - W" using n1 n2 W T by (cases "W < T") linarith+
  have a: "ring_pos C W i < C
      \<and> ((T \<le> H \<and> (H \<le> ring_pos C W i \<or> ring_pos C W i < T))
         \<or> (H < T \<and> H \<le> ring_pos C W i \<and> ring_pos C W i < T))
      \<and> \<not> (T \<le> H \<and> T \<le> ring_pos C W i \<and> ring_pos C W i < H)
      \<and> \<not> (H < T \<and> (T \<le> ring_pos C W i \<or> ring_pos C W i < H))" if i: "i \<le> n" for i
  proof (cases "W < T")
    case True
    then have "W + i < T" using n1 i by linarith
    then have r: "ring_pos C W i = W + i" using T by (simp add: ring_pos_def)
    show ?thesis unfolding r using \<open>W + i < T\<close> T J True by linarith
  next
    case False
    then have TH: "T \<le> H" "H \<le> W" using J by linarith+
    show ?thesis
    proof (cases "W + i < C")
      case True
      then have r: "ring_pos C W i = W + i" by (simp add: ring_pos_def)
      show ?thesis unfolding r using True TH by linarith
    next
      case x: False
      then have r: "ring_pos C W i = W + i - C" by (simp add: ring_pos_def)
      have "W + i - C < T" using x bound i by linarith
      then show ?thesis unfolding r using TH T by linarith
    qed
  qed
  show "ring_pos C W n < C" using a [of n] by simp
  show "(T \<le> H \<and> (H \<le> ring_pos C W n \<or> ring_pos C W n < T))
         \<or> (H < T \<and> H \<le> ring_pos C W n \<and> ring_pos C W n < T)"
    using a [of n] by simp
  show "\<forall>i<n. \<not> (T \<le> H \<and> T \<le> ring_pos C W i \<and> ring_pos C W i < H)
              \<and> \<not> (H < T \<and> (T \<le> ring_pos C W i \<or> ring_pos C W i < H))"
  proof (intro allI impI)
    fix i assume "i < n"
    then have "i \<le> n" by simp
    from a [OF this]
    show "\<not> (T \<le> H \<and> T \<le> ring_pos C W i \<and> ring_pos C W i < H)
              \<and> \<not> (H < T \<and> (T \<le> ring_pos C W i \<or> ring_pos C W i < H))"
      by blast
  qed
qed


lemma tryWrite_result_cases:
  assumes "tryWrite (Some t) src sz = Some (ok, Some t')"
  shows "t' = t \<or> t' = t\<lparr>invalidateCommit := True\<rparr>
     \<or> (ok \<and> (\<exists>bytes. src = Some bytes) \<and> 0 < sz \<and> sz < ucast (size_f t) \<and> \<not> free_space t \<le> sz)"
proof (cases src)
  case None
  then show ?thesis using assms by (simp add: tryWrite_def)
next
  case (Some bytes)
  then show ?thesis using assms
    by (auto simp: tryWrite_unfold split: if_splits option.splits)
qed

lemma tryWrite_keeps_flag:
  assumes "tryWrite (Some t) src sz = Some (ok, Some t')" and "invalidateCommit t"
  shows "invalidateCommit t'"
proof (cases src)
  case None
  then show ?thesis using assms by (simp add: tryWrite_def)
next
  case (Some bytes)
  then show ?thesis using assms
    by (auto simp: tryWrite_unfold split: if_splits option.splits)
qed

lemma tryWrite_no_space_sets_flag:
  assumes "tryWrite (Some c) (Some bytes) sz = Some (False, Some c')"
    and "0 < sz" and "sz < ucast (size_f c)"
  shows "invalidateCommit c'"
  using assms by (auto simp: tryWrite_unfold split: if_splits option.splits)

lemma group_inv_start:
  assumes "cursors_in_range s" and "wrtn s = head s"
  shows "group_inv s s"
proof -
  have "pending_ok s (unat (head s))" by (simp add: pending_ok_def) linarith
  then show ?thesis using assms by (simp add: group_inv_def cursors_in_range_def)
qed

lemma group_inv_step:
  assumes ok: "storage_ok s" and r: "cursors_in_range s"
    and inv: "group_inv s t"
    and w: "tryWrite (Some t) src sz = Some (ok', Some t')"
  shows "group_inv s t'"
proof -
  from tryWrite_result_cases [OF w]
  consider "t' = t" | "t' = t\<lparr>invalidateCommit := True\<rparr>"
    | bytes where "ok'" "src = Some bytes" "\<not> free_space t \<le> sz"
    by blast
  then show ?thesis
  proof cases
    case 1
    then show ?thesis using inv by simp
  next
    case 2
    then show ?thesis using inv by (simp add: group_inv_def)
  next
    case 3
    define C where "C = capacity s"
    define H where "H = unat (head s)"
    define T where "T = unat (tail s)"
    define W where "W = unat (wrtn t)"
    define n where "n = unat sz"
    from inv have same: "size_f t = size_f s" "head t = head s" "tail t = tail s"
      and len: "length (buf t) = length (buf s)"
      and wr: "wrtn t < ucast (size_f s)" and J: "pending_ok s W"
      and agree: "\<forall>p. readable s p \<longrightarrow> buf t ! p = buf s ! p"
      by (simp_all add: group_inv_def W_def)
    have okt: "storage_ok t" using ok len same by (simp add: storage_ok_def)
    have ct: "capacity t = C" using same by (simp add: capacity_def C_def)
    from 3 w have w': "tryWrite (Some t) (Some bytes) sz = Some (True, Some t')" by simp
    note wd = tryWrite_True_D [OF okt w']
    from wd(1) obtain m x where t': "t' = t\<lparr>buf := m, wrtn := x\<rparr>"
      and x: "unat x = ring_pos C W n" and lm: "length m = C"
      and frame: "\<forall>p<C. (\<forall>i<n. p \<noteq> ring_pos C W i) \<longrightarrow> m ! p = buf t ! p"
      unfolding ct W_def [symmetric] n_def [symmetric] by blast
    have HC: "H < C" and TC: "T < C" and WC: "W < C"
      using r wr by (simp_all add: cursors_in_range_def word_less_nat_alt H_def T_def W_def
          C_def capacity_def)
    have tr: "tail t < ucast (size_f t)" "wrtn t < ucast (size_f t)"
      using r wr same by (simp_all add: cursors_in_range_def)
    have "sz < free_space t" using 3(3) by (simp add: not_le)
    then have nf: "n < unat (free_space t)" by (simp add: word_less_nat_alt n_def)
    have "unat (free_space t) =
       (if unat (wrtn t) < unat (tail t) then unat (tail t) - unat (wrtn t)
        else unat (size_f t) + unat (tail t) - unat (wrtn t))"
      by (rule free_space_nat [OF tr])
    then have "unat (free_space t) = (if W < T then T - W else C + T - W)"
      unfolding same W_def T_def C_def capacity_def .
    then have n: "n < (if W < T then T - W else C + T - W)"
      using nf by simp
    have J': "(T \<le> H \<and> (H \<le> W \<or> W < T)) \<or> (H < T \<and> H \<le> W \<and> W < T)"
      using J by (simp add: pending_ok_def H_def T_def)
    note po = pending_outside_readable [OF WC J' HC TC n]
    have 1: "wrtn t' < ucast (size_f s)"
      using po(1) x by (simp add: t' word_less_nat_alt C_def capacity_def)
    have 2: "pending_ok s (unat (wrtn t'))"
      using po(2) x by (simp add: t' pending_ok_def H_def T_def)
    have 3: "buf t' ! p = buf s ! p" if rd: "readable s p" for p
    proof -
      from rd have pC: "p < C"
        and rp: "(T \<le> H \<and> T \<le> p \<and> p < H) \<or> (H < T \<and> (T \<le> p \<or> p < H))"
        by (auto simp: readable_def C_def H_def T_def split: if_splits)
      have "p \<noteq> ring_pos C W i" if "i < n" for i
        using po(3) [rule_format, OF that] rp by blast
      then have "m ! p = buf t ! p" using frame pC by blast
      then show ?thesis using agree rd by (simp add: t')
    qed
    have 4: "length (buf t') = length (buf s)"
      using lm ok by (simp add: t' storage_ok_def C_def capacity_def)
    show ?thesis using same 1 2 3 4 by (simp add: group_inv_def t')
  qed
qed

lemma write_group_inv:
  "write_group s t \<Longrightarrow> storage_ok s \<Longrightarrow> cursors_in_range s \<Longrightarrow> wrtn s = head s \<Longrightarrow> group_inv s t"
proof (induction rule: write_group.induct)
  case (no_write s)
  then show ?case by (simp add: group_inv_start)
next
  case (one_more s t src sz ok t')
  from one_more.IH [OF one_more.prems] have "group_inv s t" .
  with one_more.prems(1,2) show ?case using one_more.hyps(2) by (rule group_inv_step)
qed

lemma write_group_trans:
  "write_group b c \<Longrightarrow> write_group a b \<Longrightarrow> write_group a c"
proof (induction rule: write_group.induct)
  case (no_write s)
  then show ?case .
next
  case (one_more s t src sz ok t')
  from one_more.IH [OF one_more.prems] have "write_group a t" .
  then show ?case using one_more.hyps(2) by (rule write_group.one_more)
qed

lemma write_group_keeps_flag:
  "write_group x y \<Longrightarrow> invalidateCommit x \<Longrightarrow> invalidateCommit y"
proof (induction rule: write_group.induct)
  case (no_write s)
  then show ?case .
next
  case (one_more s t src sz ok t')
  from one_more.IH [OF one_more.prems] have "invalidateCommit t" .
  with one_more.hyps(2) show ?case by (rule tryWrite_keeps_flag)
qed

lemma readable_ring_pos:
  assumes h: "head y < ucast (size_f y)" and t: "tail y < ucast (size_f y)"
    and ne: "head y \<noteq> tail y" and n: "\<not> available_data y < sz" and i: "i < unat sz"
  shows "readable y (ring_pos (capacity y) (unat (tail y)) i)"
proof -
  define C where "C = capacity y"
  define H where "H = unat (head y)"
  define T where "T = unat (tail y)"
  have HC: "H < C" and TC: "T < C"
    using h t by (simp_all add: word_less_nat_alt H_def T_def C_def capacity_def)
  have HT: "H \<noteq> T" using ne by (simp add: word_unat_eq_iff H_def T_def)
  have "unat sz \<le> unat (available_data y)" using n by (simp add: word_less_nat_alt not_less)
  also have "unat (available_data y) = (if T < H then H - T else C + H - T)"
    using available_data_nat [OF h t] by (simp add: H_def T_def C_def capacity_def)
  finally have a: "unat sz \<le> (if T < H then H - T else C + H - T)" .
  have "ring_pos C T i < C \<and>
      (if T \<le> H then T \<le> ring_pos C T i \<and> ring_pos C T i < H
       else T \<le> ring_pos C T i \<or> ring_pos C T i < H)"
  proof (cases "T < H")
    case True
    then have "T + i < H" using a i by simp
    then have "ring_pos C T i = T + i" using HC by (simp add: ring_pos_def)
    then show ?thesis using True \<open>T + i < H\<close> HC by simp
  next
    case False
    then have lt: "H < T" using HT by linarith
    have b: "i < C + H - T" using a i False by simp
    show ?thesis
    proof (cases "T + i < C")
      case True
      then have "ring_pos C T i = T + i" by (simp add: ring_pos_def)
      then show ?thesis using True lt by simp
    next
      case x: False
      then have r: "ring_pos C T i = T + i - C" by (simp add: ring_pos_def)
      have "T + i - C < H" using x b by linarith
      then show ?thesis unfolding r using lt HC by simp
    qed
  qed
  then show ?thesis unfolding readable_def C_def H_def T_def .
qed

lemma tryRead_guarded_True:
  assumes "0 < sz" "sz < ucast (size_f b)" "head b \<noteq> tail b" "\<not> available_data b < sz"
    and "tryRead (Some b) (Some bytes) sz = Some (ok, d, fb)"
  shows "ok"
  using assms by (auto simp: tryRead_unfold split: option.splits if_splits)

lemma tryRead_cong:
  assumes same: "size_f x = size_f y" "head x = head y" "tail x = tail y"
    and okx: "storage_ok x" and oky: "storage_ok y"
    and h: "head y < ucast (size_f y)" and t: "tail y < ucast (size_f y)"
    and agree: "\<forall>p. readable y p \<longrightarrow> buf x ! p = buf y ! p"
  shows "read_result (tryRead (Some x) dst sz) = read_result (tryRead (Some y) dst sz)"
proof (cases dst)
  case None
  then show ?thesis by (simp add: tryRead_def read_result_def)
next
  case (Some bytes)
  have av: "available_data x = available_data y" by (simp add: available_data_def same)
  show ?thesis
  proof (cases "0 < sz \<and> sz < ucast (size_f y) \<and> head y \<noteq> tail y \<and> \<not> available_data y < sz")
    case False
    then show ?thesis using Some by (auto simp: tryRead_unfold read_result_def same av)
  next
    case g: True
    then have gy: "0 < sz" "sz < ucast (size_f y)" "head y \<noteq> tail y" "\<not> available_data y < sz"
      by simp_all
    then have gx: "0 < sz" "sz < ucast (size_f x)" "head x \<noteq> tail x" "\<not> available_data x < sz"
      by (simp_all add: same av)
    have tx: "tail x < ucast (size_f x)" using t by (simp add: same)
    show ?thesis
    proof (cases "unat sz \<le> length bytes")
      case True
      from tryRead_succeeds [OF okx tx gx True] obtain dx fx where
        rx: "tryRead (Some x) (Some bytes) sz = Some (True, Some dx, fx)" by blast
      from tryRead_succeeds [OF oky t gy True] obtain dy fy where
        ry: "tryRead (Some y) (Some bytes) sz = Some (True, Some dy, fy)" by blast
      note Dx = tryRead_True_D(1) [OF okx rx]
      note Dy = tryRead_True_D(1) [OF oky ry]
      have cx: "capacity x = capacity y" by (simp add: capacity_def same)
      from Dx have lx: "length dx = length bytes"
        and nx: "\<forall>i<unat sz. dx ! i = buf x ! ring_pos (capacity y) (unat (tail y)) i"
        and ox: "\<forall>i<length bytes. unat sz \<le> i \<longrightarrow> dx ! i = bytes ! i"
        by (auto simp: cx same)
      from Dy have ly: "length dy = length bytes"
        and ny: "\<forall>i<unat sz. dy ! i = buf y ! ring_pos (capacity y) (unat (tail y)) i"
        and oy: "\<forall>i<length bytes. unat sz \<le> i \<longrightarrow> dy ! i = bytes ! i"
        by auto
      have "dx = dy"
      proof (rule nth_equalityI)
        show "length dx = length dy" using lx ly by simp
        fix i assume i: "i < length dx"
        show "dx ! i = dy ! i"
        proof (cases "i < unat sz")
          case True
          from readable_ring_pos [OF h t gy(3,4) True]
          have "buf x ! ring_pos (capacity y) (unat (tail y)) i
              = buf y ! ring_pos (capacity y) (unat (tail y)) i"
            using agree by blast
          then show ?thesis using nx ny True by simp
        next
          case False
          then show ?thesis using ox oy i lx by simp
        qed
      qed
      then show ?thesis using rx ry Some by (simp add: read_result_def)
    next
      case False
      have "tryRead (Some b) (Some bytes) sz = None"
        if ok: "storage_ok b" and gb: "0 < sz" "sz < ucast (size_f b)" "head b \<noteq> tail b"
          "\<not> available_data b < sz" for b
      proof (rule ccontr)
        assume "tryRead (Some b) (Some bytes) sz \<noteq> None"
        then obtain ok' d fb where r: "tryRead (Some b) (Some bytes) sz = Some (ok', d, fb)"
          by (cases "tryRead (Some b) (Some bytes) sz") auto
        from tryRead_guarded_True [OF gb r] r
        have "tryRead (Some b) (Some bytes) sz = Some (True, d, fb)" by simp
        from tryRead_True_D(5) [OF ok this] False show False by simp
      qed
      from this [OF okx gx] this [OF oky gy] show ?thesis using Some by simp
    qed
  qed
qed


text \<open>
  C2. A write group starts in a bound buffer \<open>s\<close> (storage of \<open>size\<close> bytes, cursors in range)
  with nothing pending: \<open>wrtn = head\<close> and \<open>invalidateCommit\<close> clear, as every commit and
  \<open>clear()\<close> leave it. If in the group a write succeeds and a later write fails for insufficient
  space, whatever other writes come before, between and after them, then \<open>commitWrite()\<close> returns
  false and leaves \<open>head\<close>, \<open>tail\<close>, \<open>wrtn\<close>, the flag and the capacity as they were in \<open>s\<close>: the
  buffer is \<open>s\<close> up to storage bytes outside the readable part. Every readable byte is
  unchanged, so every read returns the flag and the bytes it would have returned in \<open>s\<close>, and
  \<open>isEmpty\<close> and \<open>isDataAvailableForReading\<close> answer as in \<open>s\<close>.
\<close>

theorem failed_group_rolls_back:
  assumes ok: "storage_ok s" and r: "cursors_in_range s"
    and start: "wrtn s = head s" "\<not> invalidateCommit s"
    and g1: "write_group s a"
    and A: "tryWrite (Some a) srcA szA = Some (True, Some a')"
    and g2: "write_group a' c"
    and B: "tryWrite (Some c) (Some srcB) szB = Some (False, Some c')"
    and Bsz: "0 < szB" "szB < ucast (size_f c)"
    and g3: "write_group c' e"
  shows "\<exists>e'. commitWrite (Some e) = (False, Some e')
     \<and> size_f e' = size_f s \<and> head e' = head s \<and> tail e' = tail s \<and> wrtn e' = wrtn s
     \<and> invalidateCommit e' = invalidateCommit s
     \<and> e' = s\<lparr>buf := buf e'\<rparr>
     \<and> length (buf e') = length (buf s)
     \<and> (\<forall>p. readable s p \<longrightarrow> buf e' ! p = buf s ! p)
     \<and> (\<forall>dst n. read_result (tryRead (Some e') dst n) = read_result (tryRead (Some s) dst n))
     \<and> isEmpty (Some e') = isEmpty (Some s)
     \<and> isDataAvailableForReading (Some e') = isDataAvailableForReading (Some s)"
proof -
  have "write_group s a'" using g1 A by (rule write_group.one_more)
  with g2 have "write_group s c" by (rule write_group_trans)
  then have "write_group s c'" using B by (rule write_group.one_more)
  with g3 have ge: "write_group s e" by (rule write_group_trans)
  from write_group_inv [OF ge ok r start(1)]
  have same: "size_f e = size_f s" "head e = head s" "tail e = tail s"
    and len: "length (buf e) = length (buf s)"
    and agree: "\<forall>p. readable s p \<longrightarrow> buf e ! p = buf s ! p"
    by (simp_all add: group_inv_def)
  have "invalidateCommit c'" using B Bsz by (rule tryWrite_no_space_sets_flag)
  with g3 have fl: "invalidateCommit e" by (rule write_group_keeps_flag)
  define e' where "e' = e\<lparr>wrtn := head e, invalidateCommit := False\<rparr>"
  have c: "commitWrite (Some e) = (False, Some e')"
    using fl by (simp add: commitWrite_def e'_def)
  have f: "size_f e' = size_f s" "head e' = head s" "tail e' = tail s" "wrtn e' = wrtn s"
    "invalidateCommit e' = invalidateCommit s"
    using same start by (simp_all add: e'_def)
  have eq: "e' = s\<lparr>buf := buf e'\<rparr>"
    by (rule BufferStruct.equality) (simp_all add: f)
  have l: "length (buf e') = length (buf s)" using len by (simp add: e'_def)
  have ag: "\<forall>p. readable s p \<longrightarrow> buf e' ! p = buf s ! p" using agree by (simp add: e'_def)
  have oke: "storage_ok e'" using ok l f(1) by (simp add: storage_ok_def)
  have hr: "head s < ucast (size_f s)" and tr: "tail s < ucast (size_f s)"
    using r by (simp_all add: cursors_in_range_def)
  have rd: "read_result (tryRead (Some e') dst n) = read_result (tryRead (Some s) dst n)" for dst n
    using f(1,2,3) oke ok hr tr ag by (rule tryRead_cong)
  have q: "isEmpty (Some e') = isEmpty (Some s)"
    "isDataAvailableForReading (Some e') = isDataAvailableForReading (Some s)"
    by (simp_all add: isEmpty_def isDataAvailableForReading_def f)
  show ?thesis
    apply (rule exI [of _ e'])
    apply (intro conjI allI impI)
    apply (rule c f eq l ag [rule_format] rd q | assumption)+
    done
qed


theorem failed_group_rolls_back_witness:
  "tryWrite (Some \<lparr>size_f = 8, head = 6, tail = 2, wrtn = 6, invalidateCommit = False,
                     buf = [0, 0, 1, 2, 3, 4, 0, 0]\<rparr>) (Some [9, 8]) 2
     = Some (True, Some \<lparr>size_f = 8, head = 6, tail = 2, wrtn = 0, invalidateCommit = False,
                     buf = [0, 0, 1, 2, 3, 4, 9, 8]\<rparr>)
   \<and> tryWrite (Some \<lparr>size_f = 8, head = 6, tail = 2, wrtn = 0, invalidateCommit = False,
                     buf = [0, 0, 1, 2, 3, 4, 9, 8]\<rparr>) (Some [7, 7, 7]) 3
     = Some (False, Some \<lparr>size_f = 8, head = 6, tail = 2, wrtn = 0, invalidateCommit = True,
                     buf = [0, 0, 1, 2, 3, 4, 9, 8]\<rparr>)
   \<and> commitWrite (Some \<lparr>size_f = 8, head = 6, tail = 2, wrtn = 0, invalidateCommit = True,
                     buf = [0, 0, 1, 2, 3, 4, 9, 8]\<rparr>)
     = (False, Some \<lparr>size_f = 8, head = 6, tail = 2, wrtn = 6, invalidateCommit = False,
                     buf = [0, 0, 1, 2, 3, 4, 9, 8]\<rparr>)
   \<and> read_result (tryRead (Some \<lparr>size_f = 8, head = 6, tail = 2, wrtn = 6, invalidateCommit = False,
                     buf = [0, 0, 1, 2, 3, 4, 9, 8]\<rparr>) (Some [0, 0, 0, 0]) 4)
     = read_result (tryRead (Some \<lparr>size_f = 8, head = 6, tail = 2, wrtn = 6, invalidateCommit = False,
                     buf = [0, 0, 1, 2, 3, 4, 0, 0]\<rparr>) (Some [0, 0, 0, 0]) 4)"
proof -
  define s where "s = \<lparr>size_f = 8, head = 6, tail = 2, wrtn = 6, invalidateCommit = False,
                     buf = [0, 0, 1, 2, 3, 4, 0, 0 :: uint8_t]\<rparr>"
  define a' where "a' = \<lparr>size_f = 8, head = 6, tail = 2, wrtn = 0, invalidateCommit = False,
                     buf = [0, 0, 1, 2, 3, 4, 9, 8 :: uint8_t]\<rparr>"
  define c' where "c' = \<lparr>size_f = 8, head = 6, tail = 2, wrtn = 0, invalidateCommit = True,
                     buf = [0, 0, 1, 2, 3, 4, 9, 8 :: uint8_t]\<rparr>"
  define e' where "e' = \<lparr>size_f = 8, head = 6, tail = 2, wrtn = 6, invalidateCommit = False,
                     buf = [0, 0, 1, 2, 3, 4, 9, 8 :: uint8_t]\<rparr>"
  have ok: "storage_ok s" and r: "cursors_in_range s"
    and start: "wrtn s = head s" "\<not> invalidateCommit s"
    by (simp_all add: s_def storage_ok_def cursors_in_range_def)
  have A: "tryWrite (Some s) (Some [9, 8]) 2 = Some (True, Some a')"
    by (simp add: s_def a'_def tryWrite_unfold free_space_def memcpy_def)
  have B: "tryWrite (Some a') (Some [7, 7, 7]) 3 = Some (False, Some c')"
    by (simp add: a'_def c'_def tryWrite_unfold free_space_def)
  have Bsz: "(0 :: size_t) < 3" "(3 :: size_t) < ucast (size_f a')"
    by (simp_all add: a'_def)
  have c: "commitWrite (Some c') = (False, Some e')"
    by (simp add: c'_def e'_def commitWrite_def)
  from failed_group_rolls_back
    [OF ok r start write_group.no_write A write_group.no_write B Bsz write_group.no_write]
  obtain x where "commitWrite (Some c') = (False, Some x)"
    and "\<forall>dst n. read_result (tryRead (Some x) dst n) = read_result (tryRead (Some s) dst n)"
    by blast
  then have "read_result (tryRead (Some e') (Some [0, 0, 0, 0]) 4)
      = read_result (tryRead (Some s) (Some [0, 0, 0, 0]) 4)"
    using c by simp
  then show ?thesis using A B c unfolding s_def a'_def c'_def e'_def by blast
qed

end
